theory Spec2Isabelle
  imports Main "HOL-Library.Word"
begin

section \<open>The node model of bst\_ext.c\<close>

text \<open>
  A C \<open>int\<close> is a 32-bit two's complement value. Keys are only ever compared
  (\<open><\<close>, \<open>>\<close>, \<open>==\<close> on \<open>int\<close>), which on words is the signed order \<open><s\<close>.
\<close>

type_synonym cint = "32 word"

text \<open>
  \<open>struct Node { int key; struct Node *left; struct Node *right; }\<close>.
  Every node is reachable from exactly one parent link (nodes come from \<open>newNode\<close> only
  and links are only ever set to a fresh node or to a child of the node being removed), so
  the pointer structure is a tree and \<open>NULL\<close> is the constructor \<open>Null\<close>.
\<close>

datatype node = Null | Node (key: cint) (left: node) (right: node)

text \<open>\<open>newNode\<close>: \<open>malloc\<close> is taken to succeed (the program exits otherwise).\<close>

definition newNode :: "cint \<Rightarrow> node" where
  "newNode k = Node k Null Null"

subsection \<open>Mutation engine\<close>

fun insert_recursive :: "node \<Rightarrow> cint \<Rightarrow> node" where
  "insert_recursive Null k = newNode k"
| "insert_recursive (Node rk l r) k =
     (if k <s rk then Node rk (insert_recursive l k) r
      else if rk <s k then Node rk l (insert_recursive r k)
      else Node rk l r)"

text \<open>
  The iterative insert walks with two pointers into the tree and finally writes through
  \<open>parent\<close>. A pointer to a node of the tree owned by \<open>root\<close> is the path of child
  links leading to it; \<open>None\<close> is \<open>NULL\<close>.
\<close>

datatype dir = Go_left | Go_right

type_synonym ptr = "dir list option"

fun deref :: "node \<Rightarrow> dir list \<Rightarrow> node" where
  "deref t [] = t"
| "deref Null (d # p) = Null"
| "deref (Node k l r) (Go_left # p) = deref l p"
| "deref (Node k l r) (Go_right # p) = deref r p"

text \<open>The value of \<open>cur->left\<close> or \<open>cur->right\<close>, where \<open>q\<close> is the path of that link.\<close>

definition ptr_at :: "node \<Rightarrow> dir list \<Rightarrow> ptr" where
  "ptr_at root q = (if deref root q = Null then None else Some q)"

text \<open>A write through a pointer: the node at path \<open>p\<close> is replaced by \<open>f\<close> of it.\<close>

fun store :: "node \<Rightarrow> dir list \<Rightarrow> (node \<Rightarrow> node) \<Rightarrow> node" where
  "store t [] f = f t"
| "store Null (d # p) f = Null"
| "store (Node k l r) (Go_left # p) f = Node k (store l p f) r"
| "store (Node k l r) (Go_right # p) f = Node k l (store r p f)"

text \<open>
  The \<open>while (cur)\<close> loop of \<open>insert_iterative\<close>: it either returns from the function
  on a duplicate key or falls out of the loop with the last visited \<open>parent\<close>.
\<close>

datatype walk_result = Duplicate | Fell_off ptr

lemma deref_snoc:
  "deref t (p @ [d]) = (case deref t p of Null \<Rightarrow> Null
     | Node k l r \<Rightarrow> (case d of Go_left \<Rightarrow> l | Go_right \<Rightarrow> r))"
  by (induction t p rule: deref.induct) (auto split: dir.splits node.splits)

lemma size_deref_snoc:
  "deref t (p @ [d]) \<noteq> Null \<Longrightarrow> size (deref t (p @ [d])) < size (deref t p)"
  by (auto simp: deref_snoc split: node.splits dir.splits)

function insert_iterative_loop :: "node \<Rightarrow> cint \<Rightarrow> ptr \<Rightarrow> ptr \<Rightarrow> walk_result" where
  "insert_iterative_loop root k None parent = Fell_off parent"
| "insert_iterative_loop root k (Some p) parent =
     (if k <s key (deref root p) then insert_iterative_loop root k (ptr_at root (p @ [Go_left])) (Some p)
      else if key (deref root p) <s k then insert_iterative_loop root k (ptr_at root (p @ [Go_right])) (Some p)
      else Duplicate)"
  by pat_completeness auto
termination insert_iterative_loop
  by (relation "measure (\<lambda>(root, k, cur, parent).
        case cur of None \<Rightarrow> 0 | Some p \<Rightarrow> Suc (size (deref root p)))")
     (auto simp: ptr_at_def size_deref_snoc split: option.splits)

definition insert_iterative :: "node \<Rightarrow> cint \<Rightarrow> node" where
  "insert_iterative root k =
     (if root = Null then newNode k
      else case insert_iterative_loop root k (Some []) None of
        Duplicate \<Rightarrow> root
      | Fell_off None \<Rightarrow> root
      | Fell_off (Some pp) \<Rightarrow>
          if k <s key (deref root pp)
          then store root pp (\<lambda>n. Node (key n) (newNode k) (right n))
          else store root pp (\<lambda>n. Node (key n) (left n) (newNode k)))"

fun search_recursive :: "node \<Rightarrow> cint \<Rightarrow> node" where
  "search_recursive Null k = Null"
| "search_recursive (Node rk l r) k =
     (if rk = k then Node rk l r
      else if k <s rk then search_recursive l k
      else search_recursive r k)"

fun minValueNode :: "node \<Rightarrow> node" where
  "minValueNode Null = Null"
| "minValueNode (Node k Null r) = Node k Null r"
| "minValueNode (Node k l r) = minValueNode l"

text \<open>
  \<open>deleteNode\<close>: \<open>free\<close> releases the removed node and does not change the tree that
  is returned. In the two-children case \<open>temp\<close> is not \<open>NULL\<close>, as \<open>root->right\<close> is not.
\<close>

fun deleteNode :: "node \<Rightarrow> cint \<Rightarrow> node" where
  "deleteNode Null k = Null"
| "deleteNode (Node rk l r) k =
     (if k <s rk then Node rk (deleteNode l k) r
      else if rk <s k then Node rk l (deleteNode r k)
      else if l = Null then r
      else if r = Null then l
      else Node (key (minValueNode r)) l (deleteNode r (key (minValueNode r))))"

subsection \<open>Traversal\<close>

text \<open>\<open>inorder\<close> prints the keys; the model is the sequence of keys printed.\<close>

fun inorder :: "node \<Rightarrow> cint list" where
  "inorder Null = []"
| "inorder (Node k l r) = inorder l @ k # inorder r"

text \<open>
  \<open>deleteNode\<close> again, returning besides the tree the structural cases it went through,
  in order: one entry for every node at which the key compared equal. The branch
  \<open>root->left == NULL\<close> covers a node without children and a node with a right child only.
\<close>

datatype del_case = No_child | One_child | Two_children

fun deleteNode_traced :: "node \<Rightarrow> cint \<Rightarrow> node \<times> del_case list" where
  "deleteNode_traced Null k = (Null, [])"
| "deleteNode_traced (Node rk l r) k =
     (if k <s rk then (Node rk (fst (deleteNode_traced l k)) r, snd (deleteNode_traced l k))
      else if rk <s k then (Node rk l (fst (deleteNode_traced r k)), snd (deleteNode_traced r k))
      else if l = Null then (r, [if r = Null then No_child else One_child])
      else if r = Null then (l, [One_child])
      else (Node (key (minValueNode r)) l (fst (deleteNode_traced r (key (minValueNode r)))),
            Two_children # snd (deleteNode_traced r (key (minValueNode r)))))"

subsection \<open>Neighbour queries\<close>

text \<open>
  The queries only read the tree, so a pointer is modelled by the subtree it points to.
  The inner loops \<open>while (pred->right) pred = pred->right\<close> and
  \<open>while (succ->left) succ = succ->left\<close> run on a non-null node only.
\<close>

fun rightmost :: "node \<Rightarrow> node" where
  "rightmost (Node k l Null) = Node k l Null"
| "rightmost (Node k l r) = rightmost r"
| "rightmost Null = Null"

fun leftmost :: "node \<Rightarrow> node" where
  "leftmost (Node k Null r) = Node k Null r"
| "leftmost (Node k l r) = leftmost l"
| "leftmost Null = Null"

fun predecessor_loop :: "node \<Rightarrow> node \<Rightarrow> cint \<Rightarrow> node" where
  "predecessor_loop Null pred k = pred"
| "predecessor_loop (Node ck cl cr) pred k =
     (if ck <s k then predecessor_loop cr (Node ck cl cr) k
      else if k <s ck then predecessor_loop cl pred k
      else if cl \<noteq> Null then rightmost cl else pred)"

definition predecessor :: "node \<Rightarrow> cint \<Rightarrow> node" where
  "predecessor root k = predecessor_loop root Null k"

fun successor_loop :: "node \<Rightarrow> node \<Rightarrow> cint \<Rightarrow> node" where
  "successor_loop Null succ k = succ"
| "successor_loop (Node ck cl cr) succ k =
     (if k <s ck then successor_loop cl (Node ck cl cr) k
      else if ck <s k then successor_loop cr succ k
      else if cr \<noteq> Null then leftmost cr else succ)"

definition successor :: "node \<Rightarrow> cint \<Rightarrow> node" where
  "successor root k = successor_loop root Null k"

text \<open>What the caller reads from a returned node pointer: its key, or nothing for \<open>NULL\<close>.\<close>

fun found_key :: "node \<Rightarrow> cint option" where
  "found_key Null = None"
| "found_key (Node k l r) = Some k"

subsection \<open>Statistics\<close>

text \<open>The three statistics return \<open>int\<close>; the additions are 32-bit additions.\<close>

fun height :: "node \<Rightarrow> cint" where
  "height Null = 0"
| "height (Node k l r) = (if height r <s height l then height l else height r) + 1"

fun count_nodes :: "node \<Rightarrow> cint" where
  "count_nodes Null = 0"
| "count_nodes (Node k l r) = 1 + count_nodes l + count_nodes r"

fun count_leaves :: "node \<Rightarrow> cint" where
  "count_leaves Null = 0"
| "count_leaves (Node k l r) =
     (if l = Null \<and> r = Null then 1 else count_leaves l + count_leaves r)"

subsection \<open>Structural codec\<close>

text \<open>
  A \<open>FILE*\<close> open for reading is the sequence of characters not yet read; one open for
  writing is the sequence of characters written so far. \<open>fscanf(fp, "%63s", buf)\<close> skips
  white space, then reads at most 63 characters up to the next white space; it fails
  (\<open>None\<close>) when the input ends before any character of a token.
\<close>

text \<open>\<open>isspace\<close> and \<open>isdigit\<close> of the C locale.\<close>

definition isspace :: "char \<Rightarrow> bool" where
  "isspace c = (c \<in> {CHR '' '', CHR 0x09, CHR 0x0A, CHR 0x0B, CHR 0x0C, CHR 0x0D})"

definition isdigit :: "char \<Rightarrow> bool" where
  "isdigit c = (48 \<le> (of_char c :: nat) \<and> (of_char c :: nat) \<le> 57)"

text \<open>
  \<open>fprintf(fp, "%d ", key)\<close> writes the decimal digits of the key, most significant first
  and without leading zeros, after a minus sign when the key is negative.
\<close>

fun digits_of :: "nat \<Rightarrow> string" where
  "digits_of n = (if n < 10 then [char_of (48 + n)]
                  else digits_of (n div 10) @ [char_of (48 + n mod 10)])"

definition printf_d :: "cint \<Rightarrow> string" where
  "printf_d k = (if sint k < 0 then CHR ''-'' # digits_of (nat (- sint k))
                 else digits_of (nat (sint k)))"

fun save_tree_preorder :: "string \<Rightarrow> node \<Rightarrow> string" where
  "save_tree_preorder fp Null = fp @ ''# ''"
| "save_tree_preorder fp (Node k l r) =
     save_tree_preorder (save_tree_preorder (fp @ printf_d k @ '' '') l) r"

definition fscanf_s63 :: "string \<Rightarrow> (string \<times> string) option" where
  "fscanf_s63 fp =
     (let s = dropWhile isspace fp;
          buf = take 63 (takeWhile (\<lambda>c. \<not> isspace c) s)
      in if s = [] then None else Some (buf, drop (length buf) s))"

text \<open>
  \<open>strcmp\<close> and \<open>atoi\<close> read \<open>buf\<close> as a C string, which ends at the first NUL
  character, also when the file itself held one.
\<close>

definition c_str :: "string \<Rightarrow> string" where
  "c_str buf = takeWhile (\<lambda>c. c \<noteq> CHR 0x00) buf"

text \<open>
  \<open>atoi(buf)\<close> is \<open>(int) strtol(buf, NULL, 10)\<close>. \<open>strtol\<close> skips white space, takes an
  optional sign and converts the digits that follow, stopping at the first other character;
  without digits the value is 0. \<open>long\<close> has 64 bits: a value outside its range comes
  back as \<open>LONG_MAX\<close> or \<open>LONG_MIN\<close>, and the conversion to \<open>int\<close> keeps the low 32
  bits. The C standard defines the result of \<open>atoi\<close> only when the value fits an \<open>int\<close>.
\<close>

fun atoi_digits :: "int \<Rightarrow> string \<Rightarrow> int" where
  "atoi_digits acc [] = acc"
| "atoi_digits acc (c # cs) =
     (if isdigit c then atoi_digits (acc * 10 + int (of_char c - 48)) cs else acc)"

definition LONG_MAX :: int where
  "LONG_MAX = 2 ^ 63 - 1"

definition LONG_MIN :: int where
  "LONG_MIN = - (2 ^ 63)"

definition strtol :: "string \<Rightarrow> int" where
  "strtol s = (case dropWhile isspace s of
       [] \<Rightarrow> 0
     | c # cs \<Rightarrow>
         if c = CHR ''-'' then max LONG_MIN (- atoi_digits 0 cs)
         else if c = CHR ''+'' then min LONG_MAX (atoi_digits 0 cs)
         else min LONG_MAX (atoi_digits 0 (c # cs)))"

definition atoi :: "string \<Rightarrow> cint" where
  "atoi s = word_of_int (strtol s)"

text \<open>
  \<open>load_tree_preorder\<close> returns the tree together with the rest of the stream. Every call
  that builds a node has consumed a token, so the recursion ends.
\<close>

lemma fscanf_s63_shorter: "fscanf_s63 fp = Some (buf, fp1) \<Longrightarrow> length fp1 < length fp"
proof -
  assume a: "fscanf_s63 fp = Some (buf, fp1)"
  let ?s = "dropWhile isspace fp"
  let ?tok = "takeWhile (\<lambda>c. \<not> isspace c) ?s"
  from a have ne: "?s \<noteq> []" and buf: "buf = take 63 ?tok" and fp1: "fp1 = drop (length buf) ?s"
    by (auto simp: fscanf_s63_def Let_def split: if_splits)
  from ne have "\<not> isspace (hd ?s)" using hd_dropWhile by blast
  with ne have "?tok \<noteq> []" by (cases ?s) auto
  with buf have "0 < length buf" by (cases ?tok) auto
  moreover have "length ?s \<le> length fp" by (rule length_dropWhile_le)
  moreover from ne have "0 < length ?s" by simp
  ultimately show ?thesis unfolding fp1 length_drop by linarith
qed

function load_tree_preorder :: "string \<Rightarrow> node \<times> string" where
  "load_tree_preorder fp =
     (case fscanf_s63 fp of
        None \<Rightarrow> (Null, [])
      | Some (buf, fp1) \<Rightarrow>
          if c_str buf = ''#'' then (Null, fp1)
          else (case load_tree_preorder fp1 of (l, fp2) \<Rightarrow>
                 (case load_tree_preorder fp2 of (r, fp3) \<Rightarrow>
                    (Node (atoi (c_str buf)) l r, fp3))))"
  by pat_completeness auto

lemma load_tree_preorder_rest:
  "load_tree_preorder_dom fp \<Longrightarrow> length (snd (load_tree_preorder fp)) \<le> length fp"
proof (induction fp rule: load_tree_preorder.pinduct)
  case (1 fp)
  show ?case
  proof (cases "fscanf_s63 fp")
    case None
    with 1(1) show ?thesis by (simp add: load_tree_preorder.psimps)
  next
    case (Some a)
    obtain buf fp1 where a: "a = (buf, fp1)" by (cases a)
    from Some a have lt: "length fp1 < length fp" by (simp add: fscanf_s63_shorter)
    show ?thesis
    proof (cases "c_str buf = ''#''")
      case True
      with 1(1) Some a lt show ?thesis by (simp add: load_tree_preorder.psimps)
    next
      case False
      obtain l fp2 where l: "load_tree_preorder fp1 = (l, fp2)" by (cases "load_tree_preorder fp1")
      obtain r fp3 where r: "load_tree_preorder fp2 = (r, fp3)" by (cases "load_tree_preorder fp2")
      from 1(2)[OF Some a[symmetric] False] l have "length fp2 \<le> length fp1" by simp
      moreover from 1(3)[OF Some a[symmetric] False l[symmetric]] r
      have "length fp3 \<le> length fp2" by simp
      ultimately have "length fp3 \<le> length fp" using lt by simp
      with 1(1) Some a False l r show ?thesis by (simp add: load_tree_preorder.psimps)
    qed
  qed
qed

termination load_tree_preorder
proof (relation "measure length")
  show "wf (measure length)" by simp
next
  fix fp x2 x y
  assume "fscanf_s63 fp = Some x2" "(x, y) = x2" "c_str x \<noteq> ''#''"
  then show "(y, fp) \<in> measure length" by (auto dest: fscanf_s63_shorter)
next
  fix fp x2 x y xa ya
  assume a: "fscanf_s63 fp = Some x2" "(x, y) = x2" "c_str x \<noteq> ''#''"
    "(xa, ya) = load_tree_preorder y" "load_tree_preorder_dom y"
  then have "length y < length fp" by (auto dest: fscanf_s63_shorter)
  moreover from a have "ya = snd (load_tree_preorder y)" by (metis snd_conv)
  ultimately show "(ya, fp) \<in> measure length"
    using load_tree_preorder_rest[OF a(5)] by simp
qed

declare digits_of.simps [simp del] load_tree_preorder.simps [simp del]

text \<open>The characters \<open>save_tree_preorder\<close> appends to the file, for use in proofs.\<close>

fun written :: "node \<Rightarrow> string" where
  "written Null = ''# ''"
| "written (Node k l r) = printf_d k @ '' '' @ written l @ written r"


subsection \<open>The menu's use of the tree\<close>

text \<open>Menu choices 1, 2 and 4 replace \<open>root\<close> by the result of the operation.\<close>

datatype operation = Insert_recursive cint | Insert_iterative cint | Delete cint

fun apply_operation :: "node \<Rightarrow> operation \<Rightarrow> node" where
  "apply_operation root (Insert_recursive k) = insert_recursive root k"
| "apply_operation root (Insert_iterative k) = insert_iterative root k"
| "apply_operation root (Delete k) = deleteNode root k"

definition run :: "operation list \<Rightarrow> node" where
  "run ops = foldl apply_operation Null ops"

text \<open>
  Menu choice 9. The argument is the result of \<open>fopen\<close>: \<open>None\<close> when the file cannot
  be opened, else its content. The old tree is freed before the file is read, and the
  message printed afterwards does not depend on what was read.
\<close>

datatype load_message = Failed_to_open_file | Loaded_tree

fun menu_load :: "node \<Rightarrow> string option \<Rightarrow> node \<times> load_message" where
  "menu_load root None = (root, Failed_to_open_file)"
| "menu_load root (Some fp) = (fst (load_tree_preorder fp), Loaded_tree)"

section \<open>The specification's notions\<close>

subsection \<open>The binary-search-tree property\<close>

fun bst :: "node \<Rightarrow> bool" where
  "bst Null = True"
| "bst (Node k l r) =
     ((\<forall>x \<in> set (inorder l). x <s k) \<and> (\<forall>x \<in> set (inorder r). k <s x) \<and> bst l \<and> bst r)"

subsection \<open>Keys inserted and not subsequently deleted\<close>

definition live :: "operation list \<Rightarrow> cint \<Rightarrow> bool" where
  "live ops k = (\<exists>i < length ops.
      (ops ! i = Insert_recursive k \<or> ops ! i = Insert_iterative k) \<and>
      (\<forall>j < length ops. i < j \<longrightarrow> ops ! j \<noteq> Delete k))"

subsection \<open>Neighbours in a sorted key list\<close>

definition spec_predecessor :: "cint list \<Rightarrow> cint \<Rightarrow> cint option" where
  "spec_predecessor ks k =
     (if filter (\<lambda>x. x <s k) ks = [] then None else Some (last (filter (\<lambda>x. x <s k) ks)))"

definition spec_successor :: "cint list \<Rightarrow> cint \<Rightarrow> cint option" where
  "spec_successor ks k =
     (if filter (\<lambda>x. k <s x) ks = [] then None else Some (hd (filter (\<lambda>x. k <s x) ks)))"

subsection \<open>The statistics as the specification defines them, on natural numbers\<close>

fun spec_height :: "node \<Rightarrow> nat" where
  "spec_height Null = 0"
| "spec_height (Node k l r) = 1 + max (spec_height l) (spec_height r)"

fun spec_count :: "node \<Rightarrow> nat" where
  "spec_count Null = 0"
| "spec_count (Node k l r) = 1 + spec_count l + spec_count r"

fun spec_leafCount :: "node \<Rightarrow> nat" where
  "spec_leafCount Null = 0"
| "spec_leafCount (Node k Null Null) = 1"
| "spec_leafCount (Node k l r) = spec_leafCount l + spec_leafCount r"

subsection \<open>Streams that follow the grammar\<close>

text \<open>
  Tokens are separated by white space; \<open>node := "#" | INTEGER node node\<close>.
  \<open>expects n ts\<close>: the tokens \<open>ts\<close> begin with \<open>n\<close> nodes in a row. A stream is
  malformed when it ends too early or holds a token that is neither \<open>#\<close> nor an integer
  where a node is expected.
\<close>

fun tokens_from :: "string \<Rightarrow> string \<Rightarrow> string list" where
  "tokens_from cur [] = (if cur = [] then [] else [cur])"
| "tokens_from cur (c # cs) =
     (if isspace c then (if cur = [] then tokens_from [] cs else cur # tokens_from [] cs)
      else tokens_from (cur @ [c]) cs)"

definition tokens :: "string \<Rightarrow> string list" where
  "tokens fp = tokens_from [] fp"

definition valid_integer :: "string \<Rightarrow> bool" where
  "valid_integer tok =
     (case tok of
        [] \<Rightarrow> False
      | c # cs \<Rightarrow> if c = CHR ''-'' \<or> c = CHR ''+'' then cs \<noteq> [] \<and> list_all isdigit cs
                  else list_all isdigit (c # cs))"

fun expects :: "nat \<Rightarrow> string list \<Rightarrow> bool" where
  "expects 0 ts = True"
| "expects (Suc n) [] = False"
| "expects (Suc n) (t # ts) =
     (if t = ''#'' then expects n ts else valid_integer t \<and> expects (Suc (Suc n)) ts)"

definition malformed :: "string \<Rightarrow> bool" where
  "malformed fp = (\<not> expects 1 (tokens fp))"

subsection \<open>The value of a decimal digit string\<close>

fun decimal_value :: "string \<Rightarrow> nat" where
  "decimal_value [] = 0"
| "decimal_value (c # cs) = (of_char c - 48) * 10 ^ length cs + decimal_value cs"

text \<open>A run of \<open>m\<close> sentinel tokens, each after a blank.\<close>

definition sentinels :: "nat \<Rightarrow> string" where
  "sentinels m = concat (replicate m '' #'')"

section \<open>Properties\<close>

subsection \<open>Insertion and deletion\<close>

lemma sless_simps:
  "\<not> (a::cint) <s a" "(a::cint) <s b \<Longrightarrow> \<not> b <s a"
  by (auto simp: word_sless_alt)

lemma sless_total: "\<not> (a::cint) <s b \<Longrightarrow> \<not> b <s a \<Longrightarrow> a = b"
  using signed.less_linear by blast

lemma store_id: "store t p (\<lambda>n. n) = t"
  by (induction t p "\<lambda>n::node. n" rule: store.induct) auto

lemma store_snoc:
  "store t (p @ [d]) f = store t p (\<lambda>n. case n of Null \<Rightarrow> Null
      | Node k l r \<Rightarrow> (case d of Go_left \<Rightarrow> Node k (f l) r | Go_right \<Rightarrow> Node k l (f r)))"
  by (induction t p f rule: store.induct) (auto split: dir.splits node.splits)

lemma store_cong: "f (deref t p) = g (deref t p) \<Longrightarrow> store t p f = store t p g"
  by (induction t p f rule: store.induct) auto

definition finish :: "node \<Rightarrow> cint \<Rightarrow> walk_result \<Rightarrow> node" where
  "finish root k res = (case res of
        Duplicate \<Rightarrow> root
      | Fell_off None \<Rightarrow> root
      | Fell_off (Some pp) \<Rightarrow>
          if k <s key (deref root pp)
          then store root pp (\<lambda>n. Node (key n) (newNode k) (right n))
          else store root pp (\<lambda>n. Node (key n) (left n) (newNode k)))"

lemma loop_correct:
  "deref root p \<noteq> Null \<Longrightarrow>
   finish root k (insert_iterative_loop root k (Some p) parent)
     = store root p (\<lambda>n. insert_recursive n k)"
proof (induction "size (deref root p)" arbitrary: p parent rule: less_induct)
  case less
  then obtain ck cl cr where N: "deref root p = Node ck cl cr" by (cases "deref root p") auto
  show ?case
  proof (cases "k <s ck")
    case True
    show ?thesis
    proof (cases "cl = Null")
      case True
      with \<open>k <s ck\<close> N show ?thesis
        by (auto simp: finish_def ptr_at_def deref_snoc intro!: store_cong)
    next
      case False
      with N have nn: "deref root (p @ [Go_left]) \<noteq> Null" by (simp add: deref_snoc)
      have "finish root k (insert_iterative_loop root k (Some (p @ [Go_left])) (Some p))
         = store root (p @ [Go_left]) (\<lambda>n. insert_recursive n k)"
        using less(1)[OF size_deref_snoc[OF nn] nn] .
      with \<open>k <s ck\<close> N nn show ?thesis
        by (auto simp: ptr_at_def store_snoc intro!: store_cong)
    qed
  next
    case nlt: False
    show ?thesis
    proof (cases "ck <s k")
      case True
      show ?thesis
      proof (cases "cr = Null")
        case True
        with \<open>ck <s k\<close> nlt N show ?thesis
          by (auto simp: finish_def ptr_at_def deref_snoc sless_simps intro!: store_cong)
      next
        case False
        with N have nn: "deref root (p @ [Go_right]) \<noteq> Null" by (simp add: deref_snoc)
        have "finish root k (insert_iterative_loop root k (Some (p @ [Go_right])) (Some p))
           = store root (p @ [Go_right]) (\<lambda>n. insert_recursive n k)"
          using less(1)[OF size_deref_snoc[OF nn] nn] .
        with \<open>ck <s k\<close> nlt N nn show ?thesis
          by (auto simp: ptr_at_def store_snoc intro!: store_cong)
      qed
    next
      case False
      with nlt N show ?thesis
        by (auto simp: finish_def store_id intro!: store_cong[where g="\<lambda>n. n", simplified store_id, symmetric])
    qed
  qed
qed

text \<open>
  The loop body runs at least once, so \<open>parent\<close> is never \<open>NULL\<close> after the loop: the
  branch \<open>Fell_off None\<close> of \<open>insert_iterative\<close> is not reachable.
\<close>

lemma insert_iterative_loop_parent:
  "cur \<noteq> None \<or> parent \<noteq> None \<Longrightarrow>
   insert_iterative_loop root k cur parent \<noteq> Fell_off None"
  by (induction root k cur parent rule: insert_iterative_loop.induct) auto

lemma insert_iterative_eq: "insert_iterative t k = insert_recursive t k"
proof (cases t)
  case Null
  then show ?thesis by (simp add: insert_iterative_def)
next
  case (Node a l r)
  then have "deref t [] \<noteq> Null" by simp
  from loop_correct[OF this, of k None] Node show ?thesis
    by (simp add: insert_iterative_def finish_def)
qed


lemma set_inorder_insert:
  "set (inorder (insert_recursive t k)) = insert k (set (inorder t))"
  by (induction t) (auto simp: newNode_def dest: sless_total)

lemma bst_insert_recursive: "bst t \<Longrightarrow> bst (insert_recursive t k)"
  by (induction t) (auto simp: newNode_def set_inorder_insert)

lemma minValueNode_nonnull: "t \<noteq> Null \<Longrightarrow> minValueNode t \<noteq> Null"
  by (induction t rule: minValueNode.induct) auto

lemma minValueNode_left: "left (minValueNode t) = Null \<or> minValueNode t = Null"
  by (induction t rule: minValueNode.induct) auto

lemma minValueNode_mem: "t \<noteq> Null \<Longrightarrow> key (minValueNode t) \<in> set (inorder t)"
  by (induction t rule: minValueNode.induct) auto

lemma minValueNode_least:
  "bst t \<Longrightarrow> x \<in> set (inorder t) \<Longrightarrow> x = key (minValueNode t) \<or> key (minValueNode t) <s x"
proof (induction t rule: minValueNode.induct)
  case 1
  then show ?case by simp
next
  case (2 k r)
  then show ?case by auto
next
  case (3 k lk ll lr r)
  let ?l = "Node lk ll lr"
  have m: "key (minValueNode ?l) \<in> set (inorder ?l)" by (rule minValueNode_mem) simp
  from 3(2) have "\<forall>y \<in> set (inorder ?l). y <s k" by (simp only: bst.simps) blast
  with m have mk: "key (minValueNode ?l) <s k" by blast
  from 3(3) consider "x \<in> set (inorder ?l)" | "x = k" | "x \<in> set (inorder r)" by auto
  then show ?case
  proof cases
    case 1
    with 3 show ?thesis by simp
  next
    case 2
    with mk show ?thesis by simp
  next
    case 3
    with \<open>bst (Node k ?l r)\<close> have "k <s x" by simp
    with mk have "key (minValueNode ?l) <s x" by (rule signed.less_trans)
    then show ?thesis by simp
  qed
qed

lemma set_inorder_deleteNode:
  "bst t \<Longrightarrow> set (inorder (deleteNode t k)) = set (inorder t) - {k}"
proof (induction t k rule: deleteNode.induct)
  case (1 k)
  then show ?case by simp
next
  case (2 rk l r k)
  show ?case
  proof (cases "k <s rk \<or> rk <s k")
    case True
    with 2 show ?thesis by (auto simp: sless_simps)
  next
    case False
    then have eq: "k = rk" by (auto dest: sless_total)
    show ?thesis
    proof (cases "l = Null \<or> r = Null")
      case True
      with 2(4) eq show ?thesis by (auto simp: sless_simps)
    next
      case False
      let ?m = "key (minValueNode r)"
      from False have m: "?m \<in> set (inorder r)" by (simp add: minValueNode_mem)
      from 2(4) have "bst r" by simp
      with 2(3) False eq have "set (inorder (deleteNode r ?m)) = set (inorder r) - {?m}"
        by (simp add: sless_simps)
      with False eq m 2(4) show ?thesis by (auto simp: sless_simps)
    qed
  qed
qed

lemma bst_deleteNode: "bst t \<Longrightarrow> bst (deleteNode t k)"
proof (induction t k rule: deleteNode.induct)
  case (1 k)
  then show ?case by simp
next
  case (2 rk l r k)
  show ?case
  proof (cases "k <s rk \<or> rk <s k")
    case True
    with 2 show ?thesis by (auto simp: sless_simps set_inorder_deleteNode)
  next
    case False
    then have eq: "k = rk" by (auto dest: sless_total)
    show ?thesis
    proof (cases "l = Null \<or> r = Null")
      case True
      with 2(4) eq show ?thesis by (auto simp: sless_simps)
    next
      case False
      let ?m = "key (minValueNode r)"
      from False have m: "?m \<in> set (inorder r)" by (simp add: minValueNode_mem)
      from 2(4) have br: "bst r" and bl: "bst l" by simp_all
      from 2(4) m have km: "rk <s ?m" by simp
      from 2(3) False eq br have b': "bst (deleteNode r ?m)" by (simp add: sless_simps)
      have lt: "\<forall>x \<in> set (inorder l). x <s ?m"
        using 2(4) km by (auto intro: signed.less_trans)
      have gt: "\<forall>x \<in> set (inorder (deleteNode r ?m)). ?m <s x"
        using minValueNode_least[OF br] by (auto simp: set_inorder_deleteNode[OF br])
      from False eq lt gt b' bl show ?thesis by (simp add: sless_simps)
    qed
  qed
qed

lemma bst_sorted: "bst t \<Longrightarrow> sorted_wrt (<s) (inorder t)"
  by (induction t) (auto simp: sorted_wrt_append intro: signed.less_trans)

lemma bst_distinct: "bst t \<Longrightarrow> distinct (inorder t)"
  by (induction t) (auto simp: sless_simps)

lemma deleteNode_traced_fst: "fst (deleteNode_traced t k) = deleteNode t k"
  by (induction t k rule: deleteNode_traced.induct) auto

lemma search_present_insert: "search_recursive t k \<noteq> Null \<Longrightarrow> insert_recursive t k = t"
  by (induction t) (auto simp: sless_simps split: if_splits)

lemma search_absent_delete: "search_recursive t k = Null \<Longrightarrow> deleteNode t k = t"
  by (induction t) (auto simp: sless_simps dest: sless_total split: if_splits)

lemma search_bst: "bst t \<Longrightarrow> (search_recursive t k \<noteq> Null) = (k \<in> set (inorder t))"
  by (induction t) (auto simp: sless_simps dest: sless_total)

lemma search_not_member: "k \<notin> set (inorder t) \<Longrightarrow> search_recursive t k = Null"
  by (induction t) auto

lemma min_delete_trace:
  "bst t \<Longrightarrow> t \<noteq> Null \<Longrightarrow>
   snd (deleteNode_traced t (key (minValueNode t))) = [No_child] \<or>
   snd (deleteNode_traced t (key (minValueNode t))) = [One_child]"
proof (induction t rule: minValueNode.induct)
  case 1
  then show ?case by simp
next
  case (2 k r)
  then show ?case by (simp add: sless_simps)
next
  case (3 k lk ll lr r)
  let ?l = "Node lk ll lr"
  have m: "key (minValueNode ?l) \<in> set (inorder ?l)" by (rule minValueNode_mem) simp
  from 3(2) have "\<forall>y \<in> set (inorder ?l). y <s k" by (simp only: bst.simps) blast
  with m have mk: "key (minValueNode ?l) <s k" by blast
  from 3(2) have "bst ?l" by (simp only: bst.simps) blast
  with 3(1) have "snd (deleteNode_traced ?l (key (minValueNode ?l))) = [No_child] \<or>
     snd (deleteNode_traced ?l (key (minValueNode ?l))) = [One_child]" by simp
  moreover have "snd (deleteNode_traced (Node k ?l r) (key (minValueNode (Node k ?l r))))
     = snd (deleteNode_traced ?l (key (minValueNode ?l)))"
    using mk by (simp del: deleteNode_traced.simps add: deleteNode_traced.simps(2)[of k ?l r])
  ultimately show ?case by (simp only:)
qed

lemma bst_apply_operation: "bst t \<Longrightarrow> bst (apply_operation t op)"
  by (cases op) (simp_all add: bst_insert_recursive insert_iterative_eq bst_deleteNode)

lemma bst_foldl: "bst t \<Longrightarrow> bst (foldl apply_operation t ops)"
  by (induction ops arbitrary: t) (simp_all add: bst_apply_operation)

lemma live_Nil: "live [] k = False"
  by (simp add: live_def)

lemma live_snoc:
  "live (ops @ [op]) k =
     (op = Insert_recursive k \<or> op = Insert_iterative k \<or> (live ops k \<and> op \<noteq> Delete k))"
proof
  assume "live (ops @ [op]) k"
  then obtain i where i: "i < Suc (length ops)"
    and ins: "(ops @ [op]) ! i = Insert_recursive k \<or> (ops @ [op]) ! i = Insert_iterative k"
    and nd: "\<forall>j < Suc (length ops). i < j \<longrightarrow> (ops @ [op]) ! j \<noteq> Delete k"
    by (auto simp: live_def)
  show "op = Insert_recursive k \<or> op = Insert_iterative k \<or> (live ops k \<and> op \<noteq> Delete k)"
  proof (cases "i = length ops")
    case True
    with ins show ?thesis by auto
  next
    case False
    with i have il: "i < length ops" by simp
    from nd il have "(ops @ [op]) ! length ops \<noteq> Delete k" by blast
    then have "op \<noteq> Delete k" by simp
    moreover have "live ops k"
      unfolding live_def
    proof (intro exI conjI allI impI)
      show "i < length ops" by (rule il)
      from ins il show "ops ! i = Insert_recursive k \<or> ops ! i = Insert_iterative k"
        by (simp add: nth_append)
    next
      fix j assume "j < length ops" "i < j"
      with nd have "(ops @ [op]) ! j \<noteq> Delete k" by simp
      with \<open>j < length ops\<close> show "ops ! j \<noteq> Delete k" by (simp add: nth_append)
    qed
    ultimately show ?thesis by simp
  qed
next
  assume r: "op = Insert_recursive k \<or> op = Insert_iterative k \<or> (live ops k \<and> op \<noteq> Delete k)"
  show "live (ops @ [op]) k"
  proof (cases "op = Insert_recursive k \<or> op = Insert_iterative k")
    case True
    then show ?thesis
      unfolding live_def by (intro exI[of _ "length ops"]) auto
  next
    case False
    with r have l: "live ops k" and nd: "op \<noteq> Delete k" by auto
    from l obtain i where i: "i < length ops"
      and ins: "ops ! i = Insert_recursive k \<or> ops ! i = Insert_iterative k"
      and nd': "\<forall>j < length ops. i < j \<longrightarrow> ops ! j \<noteq> Delete k"
      by (auto simp: live_def)
    show ?thesis
      unfolding live_def
    proof (intro exI[of _ i] conjI allI impI)
      show "i < length (ops @ [op])" using i by simp
      show "(ops @ [op]) ! i = Insert_recursive k \<or> (ops @ [op]) ! i = Insert_iterative k"
        using ins i by (simp add: nth_append)
    next
      fix j assume "j < length (ops @ [op])" "i < j"
      then show "(ops @ [op]) ! j \<noteq> Delete k"
        using nd nd' by (cases "j = length ops") (auto simp: nth_append)
    qed
  qed
qed

lemma mem_apply_operation:
  "bst t \<Longrightarrow> (k \<in> set (inorder (apply_operation t op))) =
     (op = Insert_recursive k \<or> op = Insert_iterative k \<or> (k \<in> set (inorder t) \<and> op \<noteq> Delete k))"
  by (cases op) (auto simp: set_inorder_insert insert_iterative_eq set_inorder_deleteNode)

lemma run_snoc: "run (ops @ [op]) = apply_operation (run ops) op"
  by (simp add: run_def)

lemma bst_run: "bst (run ops)"
  using bst_foldl[of Null ops] by (simp add: run_def)

lemma mem_run: "(k \<in> set (inorder (run ops))) = live ops k"
proof (induction ops rule: rev_induct)
  case Nil
  then show ?case by (simp add: run_def live_Nil)
next
  case (snoc op ops)
  then show ?case by (simp add: run_snoc mem_apply_operation[OF bst_run] live_snoc)
qed

subsection \<open>Neighbour queries\<close>

lemma rightmost_last: "t \<noteq> Null \<Longrightarrow> found_key (rightmost t) = Some (last (inorder t))"
  by (induction t rule: rightmost.induct) auto

lemma leftmost_hd: "t \<noteq> Null \<Longrightarrow> found_key (leftmost t) = Some (hd (inorder t))"
  by (induction t rule: leftmost.induct) (auto simp: hd_append)

lemma inorder_nonempty: "t \<noteq> Null \<Longrightarrow> inorder t \<noteq> []"
  by (cases t) auto

lemma predecessor_loop_spec:
  "bst cur \<Longrightarrow> found_key (predecessor_loop cur pred k) =
     (if filter (\<lambda>x. x <s k) (inorder cur) = [] then found_key pred
      else Some (last (filter (\<lambda>x. x <s k) (inorder cur))))"
proof (induction cur arbitrary: pred)
  case Null
  then show ?case by simp
next
  case (Node ck cl cr)
  from Node.prems have bl: "bst cl" and br: "bst cr"
    and lt: "\<forall>x \<in> set (inorder cl). x <s ck" and gt: "\<forall>x \<in> set (inorder cr). ck <s x"
    by simp_all
  show ?case
  proof (cases "ck <s k")
    case True
    with lt have "\<forall>x \<in> set (inorder cl). x <s k" by (blast intro: signed.less_trans)
    then have fl: "filter (\<lambda>x. x <s k) (inorder cl) = inorder cl" by simp
    show ?thesis
      using True Node.IH(2)[OF br, of "Node ck cl cr"] fl
      by simp
  next
    case nlt: False
    show ?thesis
    proof (cases "k <s ck")
      case True
      with gt have "\<forall>x \<in> set (inorder cr). \<not> x <s k"
        by (meson signed.less_trans sless_simps(2))
      then have fr: "filter (\<lambda>x. x <s k) (inorder cr) = []" by simp
      show ?thesis
        using True nlt Node.IH(1)[OF bl, of pred] fr by simp
    next
      case False
      with nlt have eq: "k = ck" by (auto dest: sless_total)
      from gt eq have "\<forall>x \<in> set (inorder cr). \<not> x <s k" by (auto dest: sless_simps(2))
      then have fr: "filter (\<lambda>x. x <s k) (inorder cr) = []" by simp
      from lt eq have fl: "filter (\<lambda>x. x <s k) (inorder cl) = inorder cl" by simp
      show ?thesis
      proof (cases "cl = Null")
        case True
        with eq fr show ?thesis by (simp add: sless_simps)
      next
        case False
        with eq fr fl show ?thesis
          by (simp add: sless_simps rightmost_last inorder_nonempty)
      qed
    qed
  qed
qed

lemma successor_loop_spec:
  "bst cur \<Longrightarrow> found_key (successor_loop cur succ k) =
     (if filter (\<lambda>x. k <s x) (inorder cur) = [] then found_key succ
      else Some (hd (filter (\<lambda>x. k <s x) (inorder cur))))"
proof (induction cur arbitrary: succ)
  case Null
  then show ?case by simp
next
  case (Node ck cl cr)
  from Node.prems have bl: "bst cl" and br: "bst cr"
    and lt: "\<forall>x \<in> set (inorder cl). x <s ck" and gt: "\<forall>x \<in> set (inorder cr). ck <s x"
    by simp_all
  show ?case
  proof (cases "k <s ck")
    case True
    with gt have "\<forall>x \<in> set (inorder cr). k <s x" by (blast intro: signed.less_trans)
    then have fr: "filter (\<lambda>x. k <s x) (inorder cr) = inorder cr" by simp
    show ?thesis
      using True Node.IH(1)[OF bl, of "Node ck cl cr"] fr
      by (simp add: hd_append)
  next
    case nlt: False
    show ?thesis
    proof (cases "ck <s k")
      case True
      with lt have "\<forall>x \<in> set (inorder cl). \<not> k <s x"
        by (meson signed.less_trans sless_simps(2))
      then have fl: "filter (\<lambda>x. k <s x) (inorder cl) = []" by simp
      show ?thesis
        using True nlt Node.IH(2)[OF br, of succ] fl by (simp add: sless_simps)
    next
      case False
      with nlt have eq: "k = ck" by (auto dest: sless_total)
      from lt eq have "\<forall>x \<in> set (inorder cl). \<not> k <s x" by (auto dest: sless_simps(2))
      then have fl: "filter (\<lambda>x. k <s x) (inorder cl) = []" by simp
      from gt eq have fr: "filter (\<lambda>x. k <s x) (inorder cr) = inorder cr" by simp
      show ?thesis
      proof (cases "cr = Null")
        case True
        with eq fl show ?thesis by (simp add: sless_simps)
      next
        case False
        with eq fr fl show ?thesis
          by (simp add: sless_simps leftmost_hd inorder_nonempty)
      qed
    qed
  qed
qed

lemma predecessor_spec: "bst t \<Longrightarrow> found_key (predecessor t k) = spec_predecessor (inorder t) k"
  by (simp add: predecessor_def spec_predecessor_def predecessor_loop_spec)

lemma successor_spec: "bst t \<Longrightarrow> found_key (successor t k) = spec_successor (inorder t) k"
  by (simp add: successor_def spec_successor_def successor_loop_spec)


lemma sorted_wrt_last_greatest:
  "sorted_wrt R ys \<Longrightarrow> x \<in> set ys \<Longrightarrow> x = last ys \<or> R x (last ys)"
  by (induction ys) auto

lemma spec_predecessor_greatest:
  assumes "sorted_wrt (<s) ks"
  shows "case spec_predecessor ks k of
           None \<Rightarrow> \<forall>x \<in> set ks. \<not> x <s k
         | Some p \<Rightarrow> p \<in> set ks \<and> p <s k \<and> (\<forall>x \<in> set ks. x <s k \<longrightarrow> x \<le>s p)"
proof (cases "filter (\<lambda>x. x <s k) ks = []")
  case True
  then show ?thesis by (auto simp: spec_predecessor_def filter_empty_conv)
next
  case False
  let ?ys = "filter (\<lambda>x. x <s k) ks"
  from False have "last ?ys \<in> set ?ys" by (rule last_in_set)
  then have mem: "last ?ys \<in> set ks" "last ?ys <s k" by auto
  from assms have "sorted_wrt (<s) ?ys" by (rule sorted_wrt_filter)
  then have "\<forall>x \<in> set ?ys. x \<le>s last ?ys"
    using sorted_wrt_last_greatest[of "(<s)" ?ys] by (auto simp: signed.le_less)
  then have "\<forall>x \<in> set ks. x <s k \<longrightarrow> x \<le>s last ?ys" by simp
  with False mem show ?thesis by (simp add: spec_predecessor_def)
qed

lemma spec_successor_least:
  assumes "sorted_wrt (<s) ks"
  shows "case spec_successor ks k of
           None \<Rightarrow> \<forall>x \<in> set ks. \<not> k <s x
         | Some q \<Rightarrow> q \<in> set ks \<and> k <s q \<and> (\<forall>x \<in> set ks. k <s x \<longrightarrow> q \<le>s x)"
proof (cases "filter (\<lambda>x. k <s x) ks = []")
  case True
  then show ?thesis by (auto simp: spec_successor_def filter_empty_conv)
next
  case False
  let ?ys = "filter (\<lambda>x. k <s x) ks"
  from False obtain y ys where ys: "?ys = y # ys" by (cases ?ys) auto
  then have "y \<in> set ?ys" by simp
  then have mem: "y \<in> set ks" "k <s y" by auto
  from assms have "sorted_wrt (<s) ?ys" by (rule sorted_wrt_filter)
  with ys have "\<forall>x \<in> set ?ys. y \<le>s x" by (auto simp: signed.le_less)
  then have "\<forall>x \<in> set ks. k <s x \<longrightarrow> y \<le>s x" by simp
  with False mem ys show ?thesis by (simp add: spec_successor_def)
qed

subsection \<open>Statistics\<close>

lemma count_nodes_of_nat: "count_nodes t = word_of_nat (spec_count t)"
  by (induction t) auto

lemma count_leaves_of_nat: "count_leaves t = word_of_nat (spec_leafCount t)"
  by (induction t rule: spec_leafCount.induct) auto

lemma sint_of_nat_cint: "n < 2 ^ 31 \<Longrightarrow> sint (word_of_nat n :: cint) = int n"
proof -
  assume "n < 2 ^ 31"
  then have "int n < 2 ^ 31" by (metis of_nat_less_iff of_nat_numeral of_nat_power)
  then show ?thesis
    by (simp add: signed_of_nat signed_take_bit_int_eq_self)
qed

lemma spec_height_le_count: "spec_height t \<le> spec_count t"
  by (induction t) auto

lemma spec_leafCount_le_count: "spec_leafCount t \<le> spec_count t"
  by (induction t rule: spec_leafCount.induct) auto

lemma height_of_nat: "spec_height t < 2 ^ 31 \<Longrightarrow> height t = word_of_nat (spec_height t)"
proof (induction t)
  case Null
  then show ?case by simp
next
  case (Node k l r)
  from Node.prems have hl: "spec_height l < 2 ^ 31" and hr: "spec_height r < 2 ^ 31" by simp_all
  with Node.IH have l: "height l = word_of_nat (spec_height l)"
    and r: "height r = word_of_nat (spec_height r)" by simp_all
  have cmp: "((word_of_nat (spec_height r) :: cint) <s word_of_nat (spec_height l))
      = (spec_height r < spec_height l)"
    by (simp add: word_sless_alt sint_of_nat_cint[OF hl] sint_of_nat_cint[OF hr])
  show ?case by (simp add: cmp l r max_def not_less)
qed

subsection \<open>The codec\<close>

lemma isdigit_char_of: "(n::nat) < 10 \<Longrightarrow> isdigit (char_of (48 + n))"
  by (simp add: isdigit_def)

lemma isdigit_not_special:
  "isdigit c \<Longrightarrow> \<not> isspace c \<and> c \<noteq> CHR 0x00 \<and> c \<noteq> CHR ''-'' \<and> c \<noteq> CHR ''+'' \<and> c \<noteq> CHR ''#''"
  by (auto simp: isdigit_def isspace_def)

lemma digits_of_isdigit: "\<forall>c \<in> set (digits_of n). isdigit c"
proof (induction n rule: digits_of.induct)
  case (1 n)
  then show ?case
    by (subst digits_of.simps) (auto simp: isdigit_char_of)
qed

lemma digits_of_nonempty: "digits_of n \<noteq> []"
  by (subst digits_of.simps) simp

lemma digits_of_length: "0 < m \<Longrightarrow> n < 10 ^ m \<Longrightarrow> length (digits_of n) \<le> m"
proof (induction n arbitrary: m rule: digits_of.induct)
  case (1 n)
  show ?case
  proof (cases "n < 10")
    case True
    with 1(2) show ?thesis by (subst digits_of.simps) simp
  next
    case False
    with 1(2,3) have m1: "1 < m" by (cases "m = 1") auto
    then obtain m' where m': "m = Suc m'" "0 < m'" by (cases m) auto
    with 1(3) have "n div 10 < 10 ^ m'" by (simp add: less_mult_imp_div_less mult.commute)
    from 1(1)[OF False m'(2) this] m' False show ?thesis
      by (subst digits_of.simps) simp
  qed
qed

lemma atoi_digits_snoc:
  "\<forall>c \<in> set ds. isdigit c \<Longrightarrow> isdigit d \<Longrightarrow>
   atoi_digits acc (ds @ [d]) = atoi_digits acc ds * 10 + int (of_char d - 48)"
  by (induction ds arbitrary: acc) auto

lemma atoi_digits_digits_of: "atoi_digits 0 (digits_of n) = int n"
proof (induction n rule: digits_of.induct)
  case (1 n)
  show ?case
  proof (cases "n < 10")
    case True
    then show ?thesis by (subst digits_of.simps) (simp add: isdigit_char_of)
  next
    case False
    have "isdigit (char_of (48 + n mod 10))" by (simp add: isdigit_char_of)
    moreover have "int (n div 10) * 10 + int (n mod 10) = int n" by presburger
    ultimately show ?thesis using 1[OF False] False
      by (subst digits_of.simps) (simp add: atoi_digits_snoc digits_of_isdigit)
  qed
qed


lemma sint_cint_bounds: "- (2 ^ 31) \<le> sint (k::cint) \<and> sint k < 2 ^ 31"
  using sint_ge[of k] sint_lt[of k] by simp

lemma printf_d_token:
  "printf_d k \<noteq> [] \<and> (\<forall>c \<in> set (printf_d k). \<not> isspace c \<and> c \<noteq> CHR 0x00)
   \<and> length (printf_d k) \<le> 63 \<and> printf_d k \<noteq> ''#''"
proof -
  have nat_bound: "nat \<bar>sint k\<bar> < 10 ^ 10"
    using sint_cint_bounds[of k] by (cases "sint k < 0") (simp_all add: abs_if)
  have len: "length (digits_of (nat \<bar>sint k\<bar>)) \<le> 10"
    by (rule digits_of_length[OF _ nat_bound]) simp
  have dig: "\<forall>c \<in> set (digits_of (nat \<bar>sint k\<bar>)). \<not> isspace c \<and> c \<noteq> CHR 0x00 \<and> c \<noteq> CHR ''#''"
    using digits_of_isdigit isdigit_not_special by blast
  have minus: "\<not> isspace CHR ''-''" by (simp add: isspace_def)
  show ?thesis
  proof (cases "sint k < 0")
    case True
    then have "printf_d k = CHR ''-'' # digits_of (nat \<bar>sint k\<bar>)"
      by (simp add: printf_d_def abs_if)
    with len dig minus show ?thesis by auto
  next
    case False
    then have p: "printf_d k = digits_of (nat \<bar>sint k\<bar>)"
      by (simp add: printf_d_def abs_if)
    have "digits_of (nat \<bar>sint k\<bar>) \<noteq> ''#''" using dig by (metis list.set_intros(1))
    with p len dig digits_of_nonempty show ?thesis by auto
  qed
qed

lemma c_str_printf_d: "c_str (printf_d k) = printf_d k"
  unfolding c_str_def using printf_d_token[of k] by (simp add: takeWhile_eq_all_conv)

lemma atoi_digits_nonneg: "0 \<le> acc \<Longrightarrow> 0 \<le> atoi_digits acc s"
  by (induction s arbitrary: acc) auto

lemma strtol_minus: "strtol (CHR ''-'' # cs) = max LONG_MIN (- atoi_digits 0 cs)"
  by (simp add: strtol_def isspace_def)

lemma strtol_plus: "strtol (CHR ''+'' # cs) = min LONG_MAX (atoi_digits 0 cs)"
  by (simp add: strtol_def isspace_def)

lemma strtol_unsigned:
  "\<not> isspace c \<Longrightarrow> c \<noteq> CHR ''-'' \<Longrightarrow> c \<noteq> CHR ''+'' \<Longrightarrow>
   strtol (c # cs) = min LONG_MAX (atoi_digits 0 (c # cs))"
  by (simp add: strtol_def)

lemma atoi_printf_d: "atoi (printf_d k) = k"
proof (cases "sint k < 0")
  case True
  then have p: "printf_d k = CHR ''-'' # digits_of (nat (- sint k))"
    by (simp add: printf_d_def)
  have "strtol (printf_d k) = max LONG_MIN (sint k)"
    using True by (simp add: p strtol_minus atoi_digits_digits_of)
  also have "\<dots> = sint k"
    using sint_cint_bounds[of k] by (simp add: LONG_MIN_def)
  finally show ?thesis by (simp add: atoi_def)
next
  case False
  then have p: "printf_d k = digits_of (nat (sint k))"
    by (simp add: printf_d_def)
  obtain c cs where cs: "digits_of (nat (sint k)) = c # cs"
    using digits_of_nonempty by (cases "digits_of (nat (sint k))") auto
  then have "isdigit c" using digits_of_isdigit[of "nat (sint k)"] by simp
  then have c: "\<not> isspace c" "c \<noteq> CHR ''-''" "c \<noteq> CHR ''+''" using isdigit_not_special by blast+
  have "strtol (c # cs) = min LONG_MAX (atoi_digits 0 (c # cs))"
    using c by (rule strtol_unsigned)
  also have "\<dots> = min LONG_MAX (int (nat (sint k)))"
    by (simp only: cs[symmetric] atoi_digits_digits_of)
  also have "\<dots> = sint k"
    using False sint_cint_bounds[of k] by (simp add: LONG_MAX_def)
  finally show ?thesis by (simp add: atoi_def p cs)
qed

lemma fscanf_s63_skip: "isspace c \<Longrightarrow> fscanf_s63 (c # fp) = fscanf_s63 fp"
  by (simp add: fscanf_s63_def)

lemma fscanf_s63_token:
  assumes "tok \<noteq> []" "\<forall>c \<in> set tok. \<not> isspace c" "length tok \<le> 63" "isspace d"
  shows "fscanf_s63 (tok @ d # rest) = Some (tok, d # rest)"
proof -
  from assms(1,2) have "dropWhile isspace (tok @ d # rest) = tok @ d # rest"
    by (cases tok) auto
  moreover from assms(2,4) have "takeWhile (\<lambda>c. \<not> isspace c) (tok @ d # rest) = tok"
    by (simp add: takeWhile_append2)
  ultimately show ?thesis using assms(1,3) by (simp add: fscanf_s63_def)
qed

lemma load_tree_preorder_skip: "isspace c \<Longrightarrow> load_tree_preorder (c # fp) = load_tree_preorder fp"
  by (subst (1 2) load_tree_preorder.simps) (simp add: fscanf_s63_skip)

lemma save_tree_preorder_written: "save_tree_preorder fp t = fp @ written t"
  by (induction t arbitrary: fp) auto

lemma isspace_space: "isspace CHR '' ''"
  by (simp add: isspace_def)

lemma load_written:
  "load_tree_preorder (written t @ rest) = (t, CHR '' '' # rest)"
proof (induction t arbitrary: rest)
  case Null
  have "fscanf_s63 (''#'' @ CHR '' '' # rest) = Some (''#'', CHR '' '' # rest)"
    by (rule fscanf_s63_token) (simp_all add: isspace_def)
  then show ?case
    by (subst load_tree_preorder.simps) (simp add: c_str_def)
next
  case (Node k l r)
  let ?rest1 = "written l @ written r @ rest"
  have tok: "fscanf_s63 (printf_d k @ CHR '' '' # ?rest1) = Some (printf_d k, CHR '' '' # ?rest1)"
    using printf_d_token[of k] by (intro fscanf_s63_token) (auto simp: isspace_space)
  have l: "load_tree_preorder (CHR '' '' # ?rest1) = (l, CHR '' '' # written r @ rest)"
    using Node.IH(1)[of "written r @ rest"]
    by (simp add: load_tree_preorder_skip isspace_space)
  have r: "load_tree_preorder (CHR '' '' # written r @ rest) = (r, CHR '' '' # rest)"
    using Node.IH(2)[of rest] by (simp add: load_tree_preorder_skip isspace_space)
  have ne: "printf_d k \<noteq> ''#''" using printf_d_token[of k] by simp
  have "load_tree_preorder (printf_d k @ CHR '' '' # ?rest1) = (Node k l r, CHR '' '' # rest)"
    by (subst load_tree_preorder.simps) (simp add: tok c_str_printf_d ne atoi_printf_d l r)
  then show ?case by simp
qed

lemma load_save: "load_tree_preorder (save_tree_preorder [] t) = (t, '' '')"
  using load_written[of t "[]"] by (simp add: save_tree_preorder_written)

lemma load_eof: "fscanf_s63 fp = None \<Longrightarrow> load_tree_preorder fp = (Null, [])"
  by (subst load_tree_preorder.simps) simp

lemma load_sentinel:
  "fscanf_s63 fp = Some (buf, fp1) \<Longrightarrow> c_str buf = ''#'' \<Longrightarrow> load_tree_preorder fp = (Null, fp1)"
  by (subst load_tree_preorder.simps) simp

lemma load_key:
  "fscanf_s63 fp = Some (buf, fp1) \<Longrightarrow> c_str buf \<noteq> ''#'' \<Longrightarrow>
   load_tree_preorder fp =
     (Node (atoi (c_str buf)) (fst (load_tree_preorder fp1))
        (fst (load_tree_preorder (snd (load_tree_preorder fp1)))),
      snd (load_tree_preorder (snd (load_tree_preorder fp1))))"
  by (subst load_tree_preorder.simps) (simp split: prod.splits)

lemma atoi_digits_prefix:
  "\<forall>c \<in> set ds. isdigit c \<Longrightarrow> rest = [] \<or> \<not> isdigit (hd rest) \<Longrightarrow>
   atoi_digits acc (ds @ rest) = atoi_digits acc ds"
proof (induction ds arbitrary: acc)
  case Nil
  then show ?case by (cases rest) auto
next
  case (Cons d ds)
  then show ?case by simp
qed

lemma atoi_no_digits:
  "tok = [] \<or> (\<not> isspace (hd tok) \<and> \<not> isdigit (hd tok) \<and> hd tok \<noteq> CHR ''-'' \<and> hd tok \<noteq> CHR ''+'')
   \<Longrightarrow> atoi tok = 0"
proof (cases tok)
  case Nil
  then show ?thesis by (simp add: atoi_def strtol_def)
next
  case (Cons c cs)
  assume "tok = [] \<or> (\<not> isspace (hd tok) \<and> \<not> isdigit (hd tok) \<and> hd tok \<noteq> CHR ''-'' \<and> hd tok \<noteq> CHR ''+'')"
  with Cons have c: "\<not> isspace c" "c \<noteq> CHR ''-''" "c \<noteq> CHR ''+''" and d: "\<not> isdigit c" by simp_all
  from c have "strtol (c # cs) = min LONG_MAX (atoi_digits 0 (c # cs))" by (rule strtol_unsigned)
  with d Cons show ?thesis by (simp add: atoi_def LONG_MAX_def)
qed

lemma atoi_sign_no_digits:
  assumes "c = CHR ''-'' \<or> c = CHR ''+''" and "cs = [] \<or> \<not> isdigit (hd cs)"
  shows "atoi (c # cs) = 0"
proof -
  from assms(2) have "atoi_digits 0 cs = 0" by (cases cs) auto
  with assms(1) show ?thesis
    by (auto simp: atoi_def strtol_minus strtol_plus LONG_MAX_def LONG_MIN_def)
qed

text \<open>
  The value of a digit run, by the place of each digit. \<open>atoi_digits\<close> computes it by
  repeated multiplication.
\<close>

lemma atoi_digits_decimal_value:
  "\<forall>c \<in> set ds. isdigit c \<Longrightarrow>
   atoi_digits acc ds = acc * 10 ^ length ds + int (decimal_value ds)"
proof (induction ds arbitrary: acc)
  case Nil
  then show ?case by simp
next
  case (Cons c ds)
  then have "48 \<le> (of_char c :: nat)" by (simp add: isdigit_def)
  then obtain d :: nat where d: "of_char c = 48 + d" using le_Suc_ex by blast
  have "atoi_digits acc (c # ds) = atoi_digits (acc * 10 + int d) ds"
    using Cons.prems by (simp add: d)
  also have "\<dots> = (acc * 10 + int d) * 10 ^ length ds + int (decimal_value ds)"
    using Cons.prems by (intro Cons.IH) simp
  also have "\<dots> = acc * 10 ^ length (c # ds) + int (decimal_value (c # ds))"
    by (simp add: d algebra_simps)
  finally show ?case .
qed

lemma atoi_digits_run:
  assumes "\<forall>c \<in> set ds. isdigit c" and "rest = [] \<or> \<not> isdigit (hd rest)"
  shows "atoi_digits 0 (ds @ rest) = int (decimal_value ds)"
  using atoi_digits_prefix[OF assms, of 0] atoi_digits_decimal_value[OF assms(1), of 0] by simp

lemma sint_word_of_int_cint:
  "- (2 ^ 31) \<le> v \<Longrightarrow> v < 2 ^ 31 \<Longrightarrow> sint (word_of_int v :: cint) = v"
  by (simp add: signed_of_int signed_take_bit_int_eq_self)

lemma atoi_unsigned_run:
  assumes "ds \<noteq> []" and "\<forall>c \<in> set ds. isdigit c" and "rest = [] \<or> \<not> isdigit (hd rest)"
    and "decimal_value ds < 2 ^ 31"
  shows "sint (atoi (ds @ rest)) = int (decimal_value ds)"
proof -
  from assms(1) obtain d ds' where ds: "ds = d # ds'" by (cases ds) auto
  with assms(2) have "isdigit d" by simp
  then have d: "\<not> isspace d" "d \<noteq> CHR ''-''" "d \<noteq> CHR ''+''" using isdigit_not_special by blast+
  from assms(4) have b: "int (decimal_value ds) < 2 ^ 31"
    by (metis of_nat_less_iff of_nat_numeral of_nat_power)
  have "strtol (ds @ rest) = min LONG_MAX (atoi_digits 0 (ds @ rest))"
    using strtol_unsigned[OF d, of "ds' @ rest"] by (simp add: ds)
  also have "\<dots> = min LONG_MAX (int (decimal_value ds))"
    by (simp only: atoi_digits_run[OF assms(2,3)])
  also have "\<dots> = int (decimal_value ds)" using b by (simp add: LONG_MAX_def)
  finally have e: "atoi (ds @ rest) = word_of_int (int (decimal_value ds))"
    by (simp only: atoi_def)
  show ?thesis unfolding e using b by (intro sint_word_of_int_cint) simp_all
qed

lemma atoi_plus_run:
  assumes "\<forall>c \<in> set ds. isdigit c" and "rest = [] \<or> \<not> isdigit (hd rest)"
    and "decimal_value ds < 2 ^ 31"
  shows "sint (atoi (CHR ''+'' # ds @ rest)) = int (decimal_value ds)"
proof -
  from assms(3) have b: "int (decimal_value ds) < 2 ^ 31"
    by (metis of_nat_less_iff of_nat_numeral of_nat_power)
  have "strtol (CHR ''+'' # ds @ rest) = min LONG_MAX (int (decimal_value ds))"
    by (simp only: strtol_plus atoi_digits_run[OF assms(1,2)])
  also have "\<dots> = int (decimal_value ds)" using b by (simp add: LONG_MAX_def)
  finally have e: "atoi (CHR ''+'' # ds @ rest) = word_of_int (int (decimal_value ds))"
    by (simp only: atoi_def)
  show ?thesis unfolding e using b by (intro sint_word_of_int_cint) simp_all
qed

lemma atoi_minus_run:
  assumes "\<forall>c \<in> set ds. isdigit c" and "rest = [] \<or> \<not> isdigit (hd rest)"
    and "decimal_value ds \<le> 2 ^ 31"
  shows "sint (atoi (CHR ''-'' # ds @ rest)) = - int (decimal_value ds)"
proof -
  from assms(3) have b: "int (decimal_value ds) \<le> 2 ^ 31"
    by (metis of_nat_le_iff of_nat_numeral of_nat_power)
  have "strtol (CHR ''-'' # ds @ rest) = max LONG_MIN (- int (decimal_value ds))"
    by (simp only: strtol_minus atoi_digits_run[OF assms(1,2)])
  also have "\<dots> = - int (decimal_value ds)" using b by (simp add: LONG_MIN_def)
  finally have e: "atoi (CHR ''-'' # ds @ rest) = word_of_int (- int (decimal_value ds))"
    by (simp only: atoi_def)
  show ?thesis unfolding e using b by (intro sint_word_of_int_cint) simp_all
qed

text \<open>Beyond the range of \<open>long\<close> the value saturates before it is cut to 32 bits.\<close>

lemma atoi_saturates:
  "atoi ''99999999999999999999'' = - 1" "atoi ''-99999999999999999999'' = 0"
  "atoi ''18446744073709551616'' = - 1" "atoi ''2147483648'' = - 2147483648"
  by (simp_all add: atoi_def strtol_def isspace_def isdigit_def LONG_MAX_def LONG_MIN_def)

text \<open>The end of the input reads like a sentinel.\<close>

lemma sentinels_Suc: "sentinels (Suc m) = CHR '' '' # CHR ''#'' # sentinels m"
  by (simp add: sentinels_def)

lemma sentinels_0: "sentinels 0 = []"
  by (simp add: sentinels_def)

lemma sentinels_start: "sentinels m = [] \<or> isspace (hd (sentinels m))"
  by (cases m) (simp_all add: sentinels_0 sentinels_Suc isspace_space)

lemma fscanf_s63_append:
  assumes "fscanf_s63 a = Some (buf, a1)" and "s = [] \<or> isspace (hd s)"
  shows "fscanf_s63 (a @ s) = Some (buf, a1 @ s)"
proof (cases s)
  case Nil
  with assms(1) show ?thesis by simp
next
  case (Cons c s')
  with assms(2) have c: "isspace c" by simp
  let ?d = "dropWhile isspace a"
  from assms(1) have ne: "?d \<noteq> []" and buf: "buf = take 63 (takeWhile (\<lambda>c. \<not> isspace c) ?d)"
    and a1: "a1 = drop (length buf) ?d"
    by (auto simp: fscanf_s63_def Let_def split: if_splits)
  from ne obtain x where "x \<in> set a" "\<not> isspace x"
    by (metis dropWhile_eq_Nil_conv)
  then have d: "dropWhile isspace (a @ s) = ?d @ s" by (simp add: dropWhile_append1)
  have t: "takeWhile (\<lambda>c. \<not> isspace c) (?d @ s) = takeWhile (\<lambda>c. \<not> isspace c) ?d"
  proof (cases "\<forall>x \<in> set ?d. \<not> isspace x")
    case True
    then have e: "takeWhile (\<lambda>c. \<not> isspace c) ?d = ?d" by (simp add: takeWhile_eq_all_conv)
    from True c Cons have "takeWhile (\<lambda>c. \<not> isspace c) (?d @ s) = ?d"
      by (simp add: takeWhile_append)
    with e show ?thesis by (simp only:)
  next
    case False
    then show ?thesis by (auto simp: takeWhile_append)
  qed
  have "length (takeWhile (\<lambda>c. \<not> isspace c) ?d) \<le> length ?d"
    by (rule length_takeWhile_le)
  then have "length buf \<le> length ?d"
    unfolding buf by simp
  then have "drop (length buf) (?d @ s) = a1 @ s" by (simp add: a1)
  with ne d t buf show ?thesis by (simp add: fscanf_s63_def Let_def)
qed

lemma fscanf_s63_None_sentinel:
  assumes "fscanf_s63 a = None"
  shows "fscanf_s63 (a @ sentinels (Suc m)) = Some (''#'', sentinels m)"
proof -
  from assms have "dropWhile isspace a = []"
    by (auto simp: fscanf_s63_def Let_def split: if_splits)
  then have all: "\<forall>x \<in> set a. isspace x" by (simp add: dropWhile_eq_Nil_conv)
  have h: "\<not> isspace CHR ''#''" by (simp add: isspace_def)
  from all have d: "dropWhile isspace (a @ sentinels (Suc m)) = CHR ''#'' # sentinels m"
    by (simp add: sentinels_Suc dropWhile_append2 isspace_space h)
  have t: "takeWhile (\<lambda>c. \<not> isspace c) (CHR ''#'' # sentinels m) = ''#''"
    using sentinels_start[of m] h by (cases "sentinels m") auto
  show ?thesis unfolding fscanf_s63_def d Let_def t by simp
qed

lemma load_sentinels:
  "\<exists>m'. load_tree_preorder (fp @ sentinels m)
     = (fst (load_tree_preorder fp), snd (load_tree_preorder fp) @ sentinels m')"
proof (induction fp arbitrary: m rule: load_tree_preorder.induct)
  case (1 fp)
  show ?case
  proof (cases "fscanf_s63 fp")
    case None
    then have o: "load_tree_preorder fp = (Null, [])" by (rule load_eof)
    show ?thesis
    proof (cases m)
      case 0
      with o show ?thesis by (intro exI[of _ 0]) (simp add: sentinels_0)
    next
      case (Suc n)
      have "load_tree_preorder (fp @ sentinels (Suc n)) = (Null, sentinels n)"
        by (rule load_sentinel[OF fscanf_s63_None_sentinel[OF None]]) (simp add: c_str_def)
      with o Suc show ?thesis by auto
    qed
  next
    case (Some a)
    obtain buf fp1 where a: "a = (buf, fp1)" by (cases a)
    with Some have f: "fscanf_s63 fp = Some (buf, fp1)" by simp
    have f': "fscanf_s63 (fp @ sentinels m) = Some (buf, fp1 @ sentinels m)"
      using f sentinels_start[of m] by (rule fscanf_s63_append)
    show ?thesis
    proof (cases "c_str buf = ''#''")
      case True
      with load_sentinel[OF f True] load_sentinel[OF f' True] show ?thesis by auto
    next
      case False
      obtain l fp2 where l: "load_tree_preorder fp1 = (l, fp2)" by (cases "load_tree_preorder fp1")
      obtain r fp3 where r: "load_tree_preorder fp2 = (r, fp3)" by (cases "load_tree_preorder fp2")
      from "1.IH"(1)[OF Some a[symmetric] False, of m] l
      obtain m1 where l': "load_tree_preorder (fp1 @ sentinels m) = (l, fp2 @ sentinels m1)"
        by auto
      from "1.IH"(2)[OF Some a[symmetric] False l[symmetric], of m1] r
      obtain m2 where r': "load_tree_preorder (fp2 @ sentinels m1) = (r, fp3 @ sentinels m2)"
        by auto
      from load_key[OF f False] l r
      have o: "load_tree_preorder fp = (Node (atoi (c_str buf)) l r, fp3)" by simp
      from load_key[OF f' False] l' r'
      have n: "load_tree_preorder (fp @ sentinels m)
          = (Node (atoi (c_str buf)) l r, fp3 @ sentinels m2)" by simp
      from o n show ?thesis by auto
    qed
  qed
qed

lemma load_sentinels_fst:
  "fst (load_tree_preorder (fp @ sentinels m)) = fst (load_tree_preorder fp)"
  using load_sentinels[of fp m] by auto

lemma distinct_count_list: "distinct xs \<Longrightarrow> count_list xs k = (if k \<in> set xs then 1 else 0)"
  by (induction xs) auto

lemma deleteNode_traced_search:
  "snd (deleteNode_traced t k) = snd (deleteNode_traced (search_recursive t k) k)"
proof (induction t)
  case Null
  then show ?case by simp
next
  case (Node rk l r)
  show ?case
  proof (cases "rk = k")
    case True
    then show ?thesis by simp
  next
    case False
    then have "k <s rk \<or> rk <s k" using sless_total by blast
    with False Node show ?thesis by (auto simp: sless_simps)
  qed
qed

lemma minValueNode_le:
  "bst t \<Longrightarrow> \<forall>x \<in> set (inorder t). key (minValueNode t) \<le>s x"
  using minValueNode_least by (auto simp: signed.le_less)

section \<open>The claims\<close>

text \<open>The seven-key tree of the specification's scenario.\<close>

abbreviation scenario_tree :: node where
  "scenario_tree \<equiv> Node 50 (Node 30 (Node 20 Null Null) (Node 40 Null Null))
                             (Node 70 (Node 60 Null Null) (Node 80 Null Null))"

lemma bst_scenario_tree: "bst scenario_tree"
  by simp

text \<open>Three trees whose keys are out of order, as they load from a file.\<close>

abbreviation unordered_pair :: node where
  "unordered_pair \<equiv> Node 5 Null (Node 3 Null Null)"

abbreviation unordered_tree :: node where
  "unordered_tree \<equiv> Node 1 (Node 0 Null Null)
      (Node 2 (Node 5 Null Null) (Node 5 (Node 4 Null Null) (Node 6 Null Null)))"

abbreviation unordered_small :: node where
  "unordered_small \<equiv> Node 5 (Node 3 Null Null) (Node 4 (Node 9 Null Null) Null)"

text \<open>
  Claim C1. For every tree satisfying the BST property and every key, the trees returned by
  the recursive insert, by the iterative insert and by delete satisfy the BST property
  (every key of a left subtree is strictly below the node's key, every key of a right
  subtree strictly above it), and they hold no key twice.
\<close>

theorem bst_preserved:
  "bst t \<Longrightarrow>
     bst (insert_recursive t k) \<and> distinct (inorder (insert_recursive t k)) \<and>
     bst (insert_iterative t k) \<and> distinct (inorder (insert_iterative t k)) \<and>
     bst (deleteNode t k) \<and> distinct (inorder (deleteNode t k))"
  by (simp add: insert_iterative_eq bst_insert_recursive bst_deleteNode bst_distinct)

theorem bst_preserved_witness:
  "bst (Node 50 (Node 30 Null Null) (Node 70 Null Null)) \<and>
   bst (insert_recursive (Node 50 (Node 30 Null Null) (Node 70 Null Null)) 60) \<and>
   bst (insert_iterative (Node 50 (Node 30 Null Null) (Node 70 Null Null)) 60) \<and>
   bst (deleteNode (Node 50 (Node 30 Null Null) (Node 70 Null Null)) 50) \<and>
   deleteNode (Node 50 (Node 30 Null Null) (Node 70 Null Null)) 50
     = Node 70 (Node 30 Null Null) Null"
proof -
  have h: "bst (Node 50 (Node 30 Null Null) (Node 70 Null Null))" by simp
  show ?thesis
    using h bst_preserved [OF h, of 60] bst_preserved [OF h, of 50] by simp
qed

text \<open>
  Claim C2. For every tree, reading back the characters written by \<open>save_tree_preorder\<close>
  yields the very same tree, shape and keys, and therefore the same preorder-with-sentinel
  text when it is saved again. The reader stops right after the last token, in front of the
  final blank.
\<close>

theorem serialize_roundtrip:
  "load_tree_preorder (save_tree_preorder [] t) = (t, '' '') \<and>
   save_tree_preorder [] (fst (load_tree_preorder (save_tree_preorder [] t)))
     = save_tree_preorder [] t"
  by (simp add: load_save)

theorem serialize_roundtrip_witness:
  "save_tree_preorder [] scenario_tree = ''50 30 20 # # 40 # # 70 60 # # 80 # # '' \<and>
   load_tree_preorder ''50 30 20 # # 40 # # 70 60 # # 80 # # '' = (scenario_tree, '' '')"
proof -
  have e: "save_tree_preorder [] scenario_tree = ''50 30 20 # # 40 # # 70 60 # # 80 # # ''"
    by code_simp
  from serialize_roundtrip [of scenario_tree] show ?thesis
    unfolding e by simp
qed

text \<open>
  Claim C3 says that a stream which ends too early, or holds a token that is neither
  \<open>#\<close> nor an integer, makes the load report an error and leaves the current tree
  untouched. The program does neither: the stream \<open>5 x\<close> is malformed, the load reports
  the tree as loaded, and the one-node tree that was current is replaced by the partly
  built tree.
\<close>

theorem load_malformed_counterexample:
  "malformed ''5 x'' \<and>
   \<not> (snd (menu_load (Node 1 Null Null) (Some ''5 x'')) \<noteq> Loaded_tree \<and>
      fst (menu_load (Node 1 Null Null) (Some ''5 x'')) = Node 1 Null Null) \<and>
   menu_load (Node 1 Null Null) (Some ''5 x'') = (Node 5 (Node 0 Null Null) Null, Loaded_tree)"
proof -
  have m: "malformed ''5 x''" by code_simp
  have l: "load_tree_preorder ''5 x'' = (Node 5 (Node 0 Null Null) Null, [])" by code_simp
  show ?thesis using m by (simp add: l)
qed

text \<open>
  Claim C3, amended. For every input stream the load surfaces no error: it reports the tree
  as loaded and replaces the current tree, freed before the file is read, by whatever
  \<open>load_tree_preorder\<close> built, so the result does not depend on the tree being replaced.
  Only a file that cannot be opened leaves the current tree untouched.
\<close>

theorem load_replaces_tree:
  "menu_load root (Some fp) = (fst (load_tree_preorder fp), Loaded_tree) \<and>
   menu_load root (Some fp) = menu_load root' (Some fp) \<and>
   menu_load root None = (root, Failed_to_open_file)"
  by simp

theorem load_replaces_tree_witness:
  "malformed ''5 x'' \<and>
   menu_load (Node 1 Null Null) (Some ''5 x'') = (Node 5 (Node 0 Null Null) Null, Loaded_tree) \<and>
   menu_load (Node 1 Null Null) (Some ''5 x'') = menu_load Null (Some ''5 x'')"
proof -
  have m: "malformed ''5 x''" by code_simp
  have l: "load_tree_preorder ''5 x'' = (Node 5 (Node 0 Null Null) Null, [])" by code_simp
  from load_replaces_tree [of "Node 1 Null Null" "''5 x''" Null] m show ?thesis
    by (simp add: l)
qed

text \<open>
  Claim C4 says that on every tree inserting a key already present leaves the tree
  unchanged. The loader installs any file that follows the grammar, also one whose keys
  are out of order: \<open>5 # 3 # #\<close> loads as a tree that holds 3 to the right of 5. Both
  inserts then look for 3 to the left of 5 and add a second node with key 3.
\<close>

theorem insert_present_key_counterexample:
  "load_tree_preorder ''5 # 3 # #'' = (unordered_pair, []) \<and>
   3 \<in> set (inorder unordered_pair) \<and>
   insert_recursive unordered_pair 3 = Node 5 (Node 3 Null Null) (Node 3 Null Null) \<and>
   insert_iterative unordered_pair 3 = Node 5 (Node 3 Null Null) (Node 3 Null Null) \<and>
   insert_recursive unordered_pair 3 \<noteq> unordered_pair \<and>
   insert_iterative unordered_pair 3 \<noteq> unordered_pair \<and>
   count_nodes unordered_pair = 2 \<and> count_nodes (insert_recursive unordered_pair 3) = 3"
proof -
  have l: "load_tree_preorder ''5 # 3 # #'' = (unordered_pair, [])" by code_simp
  have i: "insert_recursive unordered_pair 3 = Node 5 (Node 3 Null Null) (Node 3 Null Null)"
    by (simp add: newNode_def)
  show ?thesis unfolding insert_iterative_eq i using l by simp
qed

text \<open>
  Claim C4, amended. On every tree that satisfies the BST property, inserting a key already
  present returns the tree unchanged, node for node, and on every tree deleting a key that
  is absent does, so that count, height and every traversal are unchanged as well. On a
  tree that does not satisfy the BST property the same holds with presence read as
  \<open>search_recursive\<close> finding the key, which follows the same path as insert and delete.
\<close>

theorem no_change_operations:
  "(bst t \<longrightarrow> k \<in> set (inorder t) \<longrightarrow> insert_recursive t k = t \<and> insert_iterative t k = t) \<and>
   (k \<notin> set (inorder t) \<longrightarrow> deleteNode t k = t) \<and>
   (search_recursive t k \<noteq> Null \<longrightarrow> insert_recursive t k = t \<and> insert_iterative t k = t) \<and>
   (search_recursive t k = Null \<longrightarrow> deleteNode t k = t)"
  by (auto simp: insert_iterative_eq search_present_insert search_absent_delete
        search_not_member search_bst)

theorem no_change_operations_witness:
  "bst scenario_tree \<and> 40 \<in> set (inorder scenario_tree) \<and> 45 \<notin> set (inorder scenario_tree) \<and>
   insert_recursive scenario_tree 40 = scenario_tree \<and>
   insert_iterative scenario_tree 40 = scenario_tree \<and>
   deleteNode scenario_tree 45 = scenario_tree"
  using no_change_operations [of scenario_tree 40] no_change_operations [of scenario_tree 45]
  by simp

text \<open>
  Claim C5 says \<open>every tree\<close>. On a tree whose keys are out of order, as the loader
  installs from a file that holds them so, the leftmost node of the right subtree is not
  its minimum-key node, and the inner deletion need not end in the no-child or one-child
  case. In the first tree below, deleting 1 copies 5 (the right subtree also holds 2) and
  the inner deletion of 5 meets a node with two children. In the second, deleting 5 copies
  9 (the right subtree also holds 4) and the inner deletion of 9 finds no node at all.
\<close>

theorem two_child_delete_counterexample:
  "load_tree_preorder ''1 0 # # 2 5 # # 5 4 # # 6 # #'' = (unordered_tree, []) \<and>
   search_recursive unordered_tree 1 = unordered_tree \<and>
   minValueNode (right unordered_tree) = Node 5 Null Null \<and>
   2 \<in> set (inorder (right unordered_tree)) \<and> 2 <s (5 :: cint) \<and>
   snd (deleteNode_traced (right unordered_tree) 5) = [Two_children, No_child] \<and>
   snd (deleteNode_traced unordered_tree 1) = [Two_children, Two_children, No_child] \<and>
   load_tree_preorder ''5 3 # # 4 9 # # #'' = (unordered_small, []) \<and>
   search_recursive unordered_small 5 = unordered_small \<and>
   minValueNode (right unordered_small) = Node 9 Null Null \<and>
   4 \<in> set (inorder (right unordered_small)) \<and> 4 <s (9 :: cint) \<and>
   snd (deleteNode_traced (right unordered_small) 9) = [] \<and>
   deleteNode unordered_small 5 = Node 9 (Node 3 Null Null) (Node 4 (Node 9 Null Null) Null)"
proof -
  have l: "load_tree_preorder ''1 0 # # 2 5 # # 5 4 # # 6 # #'' = (unordered_tree, [])"
    "load_tree_preorder ''5 3 # # 4 9 # # #'' = (unordered_small, [])"
    by code_simp+
  show ?thesis using l by simp
qed

text \<open>
  Claim C5, amended. When the key to delete sits in a node with two children and the right
  subtree of that node satisfies the BST property, as it does in every tree that satisfies
  it, \<open>deleteNode\<close> takes the minimum-key node of the right subtree, writes its key into
  the target and deletes that key from the right subtree. The minimum node has no left
  child, and the inner deletion goes through exactly one structural case, which is the
  no-child or the one-child case, never the two-children case.
\<close>

theorem two_child_delete:
  assumes "search_recursive t k = Node k l r" and "l \<noteq> Null" and "r \<noteq> Null" and "bst r"
  shows "deleteNode (Node k l r) k
           = Node (key (minValueNode r)) l (deleteNode r (key (minValueNode r))) \<and>
         minValueNode r \<noteq> Null \<and> left (minValueNode r) = Null \<and>
         key (minValueNode r) \<in> set (inorder r) \<and>
         (\<forall>x \<in> set (inorder r). key (minValueNode r) \<le>s x) \<and>
         fst (deleteNode_traced t k) = deleteNode t k \<and>
         snd (deleteNode_traced t k)
           = Two_children # snd (deleteNode_traced r (key (minValueNode r))) \<and>
         (snd (deleteNode_traced r (key (minValueNode r))) = [No_child] \<or>
          snd (deleteNode_traced r (key (minValueNode r))) = [One_child])"
proof -
  have 1: "deleteNode (Node k l r) k
      = Node (key (minValueNode r)) l (deleteNode r (key (minValueNode r)))"
    using assms(2,3) by (simp add: sless_simps)
  have 2: "minValueNode r \<noteq> Null" using assms(3) by (rule minValueNode_nonnull)
  have 3: "left (minValueNode r) = Null" using minValueNode_left[of r] 2 by simp
  have 4: "key (minValueNode r) \<in> set (inorder r)" using assms(3) by (rule minValueNode_mem)
  have 5: "\<forall>x \<in> set (inorder r). key (minValueNode r) \<le>s x"
    using assms(4) by (rule minValueNode_le)
  have 6: "fst (deleteNode_traced t k) = deleteNode t k" by (rule deleteNode_traced_fst)
  have "snd (deleteNode_traced t k) = snd (deleteNode_traced (Node k l r) k)"
    using deleteNode_traced_search[of t k] assms(1) by simp
  then have 7: "snd (deleteNode_traced t k)
      = Two_children # snd (deleteNode_traced r (key (minValueNode r)))"
    using assms(2,3) by (simp add: sless_simps)
  have 8: "snd (deleteNode_traced r (key (minValueNode r))) = [No_child] \<or>
          snd (deleteNode_traced r (key (minValueNode r))) = [One_child]"
    using assms(4,3) by (rule min_delete_trace)
  from 1 2 3 4 5 6 7 8 show ?thesis by blast
qed

theorem two_child_delete_witness:
  "deleteNode scenario_tree 50
     = Node 60 (Node 30 (Node 20 Null Null) (Node 40 Null Null))
               (Node 70 Null (Node 80 Null Null)) \<and>
   minValueNode (Node 70 (Node 60 Null Null) (Node 80 Null Null)) = Node 60 Null Null \<and>
   snd (deleteNode_traced scenario_tree 50) = [Two_children, No_child]"
proof -
  have s: "search_recursive scenario_tree 50 = scenario_tree" by simp
  have b: "bst (Node 70 (Node 60 Null Null) (Node 80 Null Null))" by simp
  have m: "minValueNode (Node 70 (Node 60 Null Null) (Node 80 Null Null)) = Node 60 Null Null"
    by simp
  have d: "deleteNode (Node 70 (Node 60 Null Null) (Node 80 Null Null)) 60
      = Node 70 Null (Node 80 Null Null)" by simp
  have tr: "snd (deleteNode_traced (Node 70 (Node 60 Null Null) (Node 80 Null Null)) 60) = [No_child]"
    by simp
  show ?thesis
    using two_child_delete [OF s _ _ b] by (simp add: m d tr)
qed

text \<open>
  Claim C6. After any finite sequence of insertions (recursive or iterative) and deletions
  starting from the empty tree, the inorder traversal is strictly ascending and holds every
  key that was inserted and not deleted afterwards exactly once, and no other key.
\<close>

theorem inorder_after_operations:
  "sorted_wrt (<s) (inorder (run ops)) \<and> distinct (inorder (run ops)) \<and>
   (\<forall>k. (k \<in> set (inorder (run ops))) = live ops k) \<and>
   (\<forall>k. count_list (inorder (run ops)) k = (if live ops k then 1 else 0))"
  by (simp add: bst_sorted bst_distinct bst_run mem_run distinct_count_list)

theorem inorder_after_operations_witness:
  "inorder (run [Insert_recursive 50, Insert_iterative 30, Insert_recursive 70,
                 Insert_iterative 30, Delete 50, Delete 10]) = [30, 70] \<and>
   live [Insert_recursive 50, Insert_iterative 30, Insert_recursive 70,
         Insert_iterative 30, Delete 50, Delete 10] 30 \<and>
   \<not> live [Insert_recursive 50, Insert_iterative 30, Insert_recursive 70,
         Insert_iterative 30, Delete 50, Delete 10] 50"
proof -
  let ?ops = "[Insert_recursive 50, Insert_iterative 30, Insert_recursive 70,
               Insert_iterative 30, Delete 50, Delete 10]"
  have e: "inorder (run ?ops) = [30, 70]"
    by (simp add: run_def insert_iterative_eq newNode_def)
  from inorder_after_operations [of ?ops]
  have "(30 \<in> set (inorder (run ?ops))) = live ?ops 30"
    and "(50 \<in> set (inorder (run ?ops))) = live ?ops 50"
    by blast+
  then have "live ?ops 30 \<and> \<not> live ?ops 50" unfolding e by simp
  with e show ?thesis by blast
qed

text \<open>
  Claim C7. The iterative insert returns the same tree as the recursive insert, on every
  tree and key, and hence after every insertion sequence applied to the empty tree.
\<close>

theorem insert_implementations_agree:
  "insert_iterative t k = insert_recursive t k \<and>
   foldl insert_iterative Null ks = foldl insert_recursive Null ks"
proof -
  have "insert_iterative = insert_recursive" by (intro ext) (rule insert_iterative_eq)
  then show ?thesis by simp
qed

theorem insert_implementations_agree_witness:
  "foldl insert_iterative Null [50, 30, 70, 20, 40, 60, 80] = scenario_tree \<and>
   foldl insert_recursive Null [50, 30, 70, 20, 40, 60, 80] = scenario_tree"
proof -
  have e: "foldl insert_recursive Null [50, 30, 70, 20, 40, 60, 80] = scenario_tree"
    by (simp add: newNode_def)
  from insert_implementations_agree [of Null 0 "[50, 30, 70, 20, 40, 60, 80]"] e
  show ?thesis by simp
qed

text \<open>
  Claim C8. On a binary search tree and for every query key, present or not,
  \<open>predecessor\<close> returns the node holding the largest key strictly below the query key and
  \<open>successor\<close> the node holding the smallest key strictly above it, that is the neighbours
  in the sorted key list, and each returns \<open>NULL\<close> when there is no such key.
\<close>

theorem neighbour_queries:
  assumes "bst t"
  shows "found_key (predecessor t k) = spec_predecessor (inorder t) k \<and>
         found_key (successor t k) = spec_successor (inorder t) k \<and>
         (case found_key (predecessor t k) of
            None \<Rightarrow> \<forall>x \<in> set (inorder t). \<not> x <s k
          | Some p \<Rightarrow> p \<in> set (inorder t) \<and> p <s k \<and>
                      (\<forall>x \<in> set (inorder t). x <s k \<longrightarrow> x \<le>s p)) \<and>
         (case found_key (successor t k) of
            None \<Rightarrow> \<forall>x \<in> set (inorder t). \<not> k <s x
          | Some q \<Rightarrow> q \<in> set (inorder t) \<and> k <s q \<and>
                      (\<forall>x \<in> set (inorder t). k <s x \<longrightarrow> q \<le>s x))"
proof -
  from assms have s: "sorted_wrt (<s) (inorder t)" by (rule bst_sorted)
  show ?thesis
    using spec_predecessor_greatest[OF s, of k] spec_successor_least[OF s, of k]
    by (simp only: predecessor_spec[OF assms] successor_spec[OF assms])
qed

theorem neighbour_queries_witness:
  "inorder scenario_tree = [20, 30, 40, 50, 60, 70, 80] \<and>
   found_key (predecessor scenario_tree 60) = Some 50 \<and>
   found_key (successor scenario_tree 60) = Some 70 \<and>
   found_key (predecessor scenario_tree 45) = Some 40 \<and>
   found_key (successor scenario_tree 45) = Some 50 \<and>
   found_key (predecessor scenario_tree 20) = None \<and>
   found_key (successor scenario_tree 80) = None \<and>
   spec_predecessor [20, 30, 40, 50, 60, 70, 80] 60 = Some 50 \<and>
   spec_successor [20, 30, 40, 50, 60, 70, 80] 45 = Some 50"
proof -
  have i: "inorder scenario_tree = [20, 30, 40, 50, 60, 70, 80]" by simp
  have p: "spec_predecessor [20, 30, 40, 50, 60, 70, 80] 60 = Some 50"
          "spec_predecessor [20, 30, 40, 50, 60, 70, 80] 45 = Some 40"
          "spec_predecessor [20, 30, 40, 50, 60, 70, 80] 20 = None"
    by (simp_all add: spec_predecessor_def)
  have q: "spec_successor [20, 30, 40, 50, 60, 70, 80] 60 = Some 70"
          "spec_successor [20, 30, 40, 50, 60, 70, 80] 45 = Some 50"
          "spec_successor [20, 30, 40, 50, 60, 70, 80] 80 = None"
    by (simp_all add: spec_successor_def)
  from neighbour_queries [OF bst_scenario_tree, of 60]
       neighbour_queries [OF bst_scenario_tree, of 45]
       neighbour_queries [OF bst_scenario_tree, of 20]
       neighbour_queries [OF bst_scenario_tree, of 80]
  show ?thesis unfolding i by (simp add: p q)
qed

text \<open>
  Claim C9. The statistics follow the specification's equations: the node count and the leaf
  count computed in 32-bit arithmetic are the specification's numbers modulo \<open>2^32\<close> for
  every tree, and for every tree with fewer than \<open>2^31\<close> nodes (beyond which the C
  additions overflow) height, node count and leaf count are exactly the specification's.
\<close>

theorem statistics_equations:
  "count_nodes t = word_of_nat (spec_count t) \<and>
   count_leaves t = word_of_nat (spec_leafCount t) \<and>
   (spec_height t < 2 ^ 31 \<longrightarrow> height t = word_of_nat (spec_height t)) \<and>
   (spec_count t < 2 ^ 31 \<longrightarrow>
      sint (height t) = int (spec_height t) \<and>
      sint (count_nodes t) = int (spec_count t) \<and>
      sint (count_leaves t) = int (spec_leafCount t))"
proof -
  have "sint (height t) = int (spec_height t) \<and>
      sint (count_nodes t) = int (spec_count t) \<and>
      sint (count_leaves t) = int (spec_leafCount t)" if c: "spec_count t < 2 ^ 31"
  proof -
    from c spec_height_le_count[of t] have h: "spec_height t < 2 ^ 31" by simp
    from c spec_leafCount_le_count[of t] have l: "spec_leafCount t < 2 ^ 31" by simp
    show ?thesis
      by (simp add: height_of_nat[OF h] count_nodes_of_nat count_leaves_of_nat
            sint_of_nat_cint[OF h] sint_of_nat_cint[OF c] sint_of_nat_cint[OF l])
  qed
  then show ?thesis
    by (simp add: count_nodes_of_nat count_leaves_of_nat height_of_nat)
qed

theorem statistics_equations_witness:
  "spec_count scenario_tree = 7 \<and> spec_height scenario_tree = 3 \<and>
   spec_leafCount scenario_tree = 4 \<and>
   sint (height scenario_tree) = 3 \<and> sint (count_nodes scenario_tree) = 7 \<and>
   sint (count_leaves scenario_tree) = 4"
proof -
  have c: "spec_count scenario_tree = 7" and h: "spec_height scenario_tree = 3"
    and l: "spec_leafCount scenario_tree = 4" by simp_all
  from statistics_equations [of scenario_tree] show ?thesis
    unfolding c h l by simp
qed

text \<open>
  Claim C10. \<open>load_tree_preorder\<close> returns a tree for every input and has no error result.
  At the end of the input it returns \<open>NULL\<close>, as it does for the token \<open>#\<close>, so that
  a stream loads as the same tree when sentinel tokens are appended to it. Every other
  token becomes a node whose key is \<open>atoi\<close> of the token: 0 when no digit follows the
  optional sign, and otherwise the value of the leading digit run, negated after a minus
  sign, whatever characters follow it. The value is stated where it fits an \<open>int\<close>, which
  is where C defines \<open>atoi\<close>.
\<close>

theorem load_never_fails:
  "(fscanf_s63 fp = None \<longrightarrow> load_tree_preorder fp = (Null, [])) \<and>
   (\<forall>buf fp1. fscanf_s63 fp = Some (buf, fp1) \<longrightarrow>
      (c_str buf = ''#'' \<longrightarrow> load_tree_preorder fp = (Null, fp1)) \<and>
      (c_str buf \<noteq> ''#'' \<longrightarrow>
         load_tree_preorder fp =
           (Node (atoi (c_str buf)) (fst (load_tree_preorder fp1))
              (fst (load_tree_preorder (snd (load_tree_preorder fp1)))),
            snd (load_tree_preorder (snd (load_tree_preorder fp1)))))) \<and>
   (\<forall>tok. tok = [] \<or> (\<not> isspace (hd tok) \<and> \<not> isdigit (hd tok) \<and>
            hd tok \<noteq> CHR ''-'' \<and> hd tok \<noteq> CHR ''+'') \<longrightarrow> atoi tok = 0) \<and>
   (\<forall>c cs. (c = CHR ''-'' \<or> c = CHR ''+'') \<and> (cs = [] \<or> \<not> isdigit (hd cs)) \<longrightarrow>
      atoi (c # cs) = 0) \<and>
   (\<forall>ds rest. ds \<noteq> [] \<and> list_all isdigit ds \<and> (rest = [] \<or> \<not> isdigit (hd rest)) \<longrightarrow>
      (decimal_value ds < 2 ^ 31 \<longrightarrow>
         sint (atoi (ds @ rest)) = int (decimal_value ds) \<and>
         sint (atoi (CHR ''+'' # ds @ rest)) = int (decimal_value ds)) \<and>
      (decimal_value ds \<le> 2 ^ 31 \<longrightarrow>
         sint (atoi (CHR ''-'' # ds @ rest)) = - int (decimal_value ds))) \<and>
   (\<forall>m. fst (load_tree_preorder (fp @ sentinels m)) = fst (load_tree_preorder fp))"
proof -
  have c1: "fscanf_s63 fp = None \<longrightarrow> load_tree_preorder fp = (Null, [])"
    by (simp add: load_eof)
  have c2: "\<forall>buf fp1. fscanf_s63 fp = Some (buf, fp1) \<longrightarrow>
      (c_str buf = ''#'' \<longrightarrow> load_tree_preorder fp = (Null, fp1)) \<and>
      (c_str buf \<noteq> ''#'' \<longrightarrow>
         load_tree_preorder fp =
           (Node (atoi (c_str buf)) (fst (load_tree_preorder fp1))
              (fst (load_tree_preorder (snd (load_tree_preorder fp1)))),
            snd (load_tree_preorder (snd (load_tree_preorder fp1)))))"
    by (intro allI impI conjI) (simp_all add: load_sentinel load_key)
  have c3: "\<forall>tok. tok = [] \<or> (\<not> isspace (hd tok) \<and> \<not> isdigit (hd tok) \<and>
            hd tok \<noteq> CHR ''-'' \<and> hd tok \<noteq> CHR ''+'') \<longrightarrow> atoi tok = 0"
    by (intro allI impI) (rule atoi_no_digits)
  have c4: "\<forall>c cs. (c = CHR ''-'' \<or> c = CHR ''+'') \<and> (cs = [] \<or> \<not> isdigit (hd cs)) \<longrightarrow>
      atoi (c # cs) = 0"
    by (intro allI impI) (simp add: atoi_sign_no_digits)
  have c5: "\<forall>ds rest. ds \<noteq> [] \<and> list_all isdigit ds \<and> (rest = [] \<or> \<not> isdigit (hd rest)) \<longrightarrow>
      (decimal_value ds < 2 ^ 31 \<longrightarrow>
         sint (atoi (ds @ rest)) = int (decimal_value ds) \<and>
         sint (atoi (CHR ''+'' # ds @ rest)) = int (decimal_value ds)) \<and>
      (decimal_value ds \<le> 2 ^ 31 \<longrightarrow>
         sint (atoi (CHR ''-'' # ds @ rest)) = - int (decimal_value ds))"
  proof (intro allI impI conjI)
    fix ds rest
    assume a: "ds \<noteq> [] \<and> list_all isdigit ds \<and> (rest = [] \<or> \<not> isdigit (hd rest))"
      and b: "decimal_value ds < 2 ^ 31"
    from a have d: "\<forall>c \<in> set ds. isdigit c" and n: "ds \<noteq> []"
      and r: "rest = [] \<or> \<not> isdigit (hd rest)" by (simp_all add: list_all_iff)
    show "sint (atoi (ds @ rest)) = int (decimal_value ds)"
      using n d r b by (rule atoi_unsigned_run)
    show "sint (atoi (CHR ''+'' # ds @ rest)) = int (decimal_value ds)"
      using d r b by (rule atoi_plus_run)
  next
    fix ds rest
    assume a: "ds \<noteq> [] \<and> list_all isdigit ds \<and> (rest = [] \<or> \<not> isdigit (hd rest))"
      and b: "decimal_value ds \<le> 2 ^ 31"
    from a have d: "\<forall>c \<in> set ds. isdigit c"
      and r: "rest = [] \<or> \<not> isdigit (hd rest)" by (simp_all add: list_all_iff)
    show "sint (atoi (CHR ''-'' # ds @ rest)) = - int (decimal_value ds)"
      using d r b by (rule atoi_minus_run)
  qed
  have c6: "\<forall>m. fst (load_tree_preorder (fp @ sentinels m)) = fst (load_tree_preorder fp)"
    by (simp add: load_sentinels_fst)
  show ?thesis by (intro conjI) (rule c1 c2 c3 c4 c5 c6)+
qed

theorem load_never_fails_witness:
  "fscanf_s63 ''  '' = None \<and> load_tree_preorder ''  '' = (Null, []) \<and>
   load_tree_preorder ''# 7'' = (Null, '' 7'') \<and>
   load_tree_preorder ''5 x 12ab'' = (Node 5 (Node 0 (Node 12 Null Null) Null) Null, []) \<and>
   atoi ''x'' = 0 \<and> atoi ''-'' = 0 \<and>
   sint (atoi ''12ab'') = 12 \<and> sint (atoi ''+12ab'') = 12 \<and> sint (atoi ''-12ab'') = - 12 \<and>
   fst (load_tree_preorder ''5'') = Node 5 Null Null \<and>
   fst (load_tree_preorder ''5 # #'') = Node 5 Null Null"
proof -
  have f: "fscanf_s63 ''  '' = None" by code_simp
  have g: "fscanf_s63 ''# 7'' = Some (''#'', '' 7'')" "c_str ''#'' = ''#''" by code_simp+
  have h: "fscanf_s63 ''5 x 12ab'' = Some (''5'', '' x 12ab'')" "c_str ''5'' = ''5''"
    "atoi ''5'' = 5" "load_tree_preorder '' x 12ab'' = (Node 0 (Node 12 Null Null) Null, [])"
    "load_tree_preorder [] = (Null, [])"
    by code_simp+
  from load_never_fails [of "''5 x 12ab''", THEN conjunct2, THEN conjunct1,
      THEN spec, THEN spec, of "''5''" "'' x 12ab''"] h
  have l: "load_tree_preorder ''5 x 12ab'' = (Node 5 (Node 0 (Node 12 Null Null) Null) Null, [])"
    by simp
  have d: "''12'' \<noteq> []" "list_all isdigit ''12''" "\<not> isdigit (hd ''ab'')"
    "\<not> isdigit (hd ''x'')" "\<not> isspace (hd ''x'')" "decimal_value ''12'' = 12"
    by code_simp+
  from load_never_fails [of "''  ''", THEN conjunct1] f
  have 1: "load_tree_preorder ''  '' = (Null, [])" by (rule mp)
  from load_never_fails [of "''# 7''", THEN conjunct2, THEN conjunct1] g
  have 2: "load_tree_preorder ''# 7'' = (Null, '' 7'')" by blast
  from load_never_fails [of "[]", THEN conjunct2, THEN conjunct2, THEN conjunct1,
      THEN spec, of "''x''"] d
  have 3: "atoi ''x'' = 0" by simp
  from load_never_fails [of "[]", THEN conjunct2, THEN conjunct2, THEN conjunct2, THEN conjunct1,
      THEN spec, THEN spec, of "CHR ''-''" "[]"]
  have 4: "atoi ''-'' = 0" by simp
  have r: "''12'' \<noteq> [] \<and> list_all isdigit ''12'' \<and> (''ab'' = [] \<or> \<not> isdigit (hd ''ab''))"
    using d by blast
  have b: "decimal_value ''12'' < 2 ^ 31" "decimal_value ''12'' \<le> 2 ^ 31"
    unfolding d by simp_all
  note run = load_never_fails [of "[]", THEN conjunct2, THEN conjunct2, THEN conjunct2,
      THEN conjunct2, THEN conjunct1, THEN spec, THEN spec, of "''12''" "''ab''", THEN mp, OF r]
  from run [THEN conjunct1, THEN mp, OF b(1)]
  have 5: "sint (atoi ''12ab'') = 12 \<and> sint (atoi ''+12ab'') = 12" unfolding d by simp
  from run [THEN conjunct2, THEN mp, OF b(2)]
  have 6: "sint (atoi ''-12ab'') = - 12" unfolding d by simp
  have s: "sentinels 2 = '' # #''" "load_tree_preorder ''5'' = (Node 5 Null Null, [])"
    by code_simp+
  from load_never_fails [of "''5''", THEN conjunct2, THEN conjunct2, THEN conjunct2,
      THEN conjunct2, THEN conjunct2, THEN spec, of 2]
  have 7: "fst (load_tree_preorder ''5 # #'') = Node 5 Null Null" unfolding s by simp
  from s have 8: "fst (load_tree_preorder ''5'') = Node 5 Null Null" by simp
  from f 1 2 l 3 4 5 6 7 8 show ?thesis by blast
qed

end
